theory Spec2Isabelle
  imports
    Complex_Main
    "HOL-Library.Char_ord"
    "HOL-Library.List_Lexorder"
    "HOL-Library.Product_Lexorder"
    "HOL-Library.Multiset"
begin

section \<open>Data model of \<^verbatim>\<open>estacao.py\<close>\<close>

text \<open>
  A Python float is an IEEE 754 double. The values that occur are the finite doubles,
  which are real numbers, and the two infinities; NaN cannot arise from adding finite
  durations to a time, and durations that are themselves infinite or NaN are outside
  the model. The order on these values is the one of Python's comparisons.
\<close>

datatype pyfloat = Fin real | PInf | NInf

instantiation pyfloat :: linorder
begin

definition less_eq_pyfloat :: "pyfloat \<Rightarrow> pyfloat \<Rightarrow> bool" where
  "x \<le> y \<longleftrightarrow>
     (case x of
        NInf \<Rightarrow> True
      | Fin a \<Rightarrow> (case y of NInf \<Rightarrow> False | Fin b \<Rightarrow> a \<le> b | PInf \<Rightarrow> True)
      | PInf \<Rightarrow> (case y of PInf \<Rightarrow> True | Fin b \<Rightarrow> False | NInf \<Rightarrow> False))"

definition less_pyfloat :: "pyfloat \<Rightarrow> pyfloat \<Rightarrow> bool" where
  "x < y \<longleftrightarrow> x \<le> y \<and> \<not> y \<le> (x :: pyfloat)"

instance
  by standard (auto simp: less_eq_pyfloat_def less_pyfloat_def split: pyfloat.splits)

end

text \<open>
  Addition of doubles rounds the exact sum to the nearest double, ties to the double
  with an even significand; \<open>rne\<close> rounds a real to the nearest integer that way.
  The doubles next to \<open>x\<close> are the multiples of \<open>ulp x\<close>, the power of two for which
  \<open>x\<close> lies between \<open>two52\<close> and \<open>two53\<close> times it; the smallest one is 2 to the power
  -1074 and serves all smaller values as well, the largest one is 2 to the power 971.
  The search for \<open>ulp x\<close> starts at the doubles between 1 and 2 and goes up or down. A
  result of magnitude \<open>two1024\<close> or more is an infinity. The three constants are 2 to
  the powers 52, 53 and 1024.
\<close>

definition rne :: "real \<Rightarrow> int" where
  "rne x =
     (let f = \<lfloor>x\<rfloor>; r = x - of_int f
      in if r < 1 / 2 then f else if 1 / 2 < r then f + 1 else if even f then f else f + 1)"

definition two52 :: real where
  "two52 = 4503599627370496"

definition two53 :: real where
  "two53 = 9007199254740992"

definition two1024 :: real where
  "two1024 = 179769313486231590772930519078902473361797697894230657273430081157732675805500963132708477322407536021120113879871393357658789768814416622492847430639474124377767893424865485276302219601246094119453082952085005768838150682342462881473913110540827237163350510684586298239947245938479716304835356329624224137216"

fun ulp_up :: "nat \<Rightarrow> real \<Rightarrow> real \<Rightarrow> real" where
  "ulp_up 0 u x = u"
| "ulp_up (Suc n) u x = (if x < u * two53 then u else ulp_up n (2 * u) x)"

fun ulp_down :: "nat \<Rightarrow> real \<Rightarrow> real \<Rightarrow> real" where
  "ulp_down 0 u x = u"
| "ulp_down (Suc n) u x = (if u * two52 \<le> x then u else ulp_down n (u / 2) x)"

definition ulp :: "real \<Rightarrow> real" where
  "ulp x = (if 1 \<le> x then ulp_up 1023 (1 / two52) x else ulp_down 1022 (1 / two52) x)"

definition rnd_mag :: "real \<Rightarrow> real" where
  "rnd_mag x = ulp x * of_int (rne (x / ulp x))"

definition rnd :: "real \<Rightarrow> pyfloat" where
  "rnd x =
     (let m = rnd_mag \<bar>x\<bar>
      in if two1024 \<le> m then (if 0 \<le> x then PInf else NInf)
         else Fin (if 0 \<le> x then m else - m))"

text \<open>
  \<^verbatim>\<open>x + w\<close> for a float \<open>x\<close> and a finite duration \<open>w\<close>, as \<^verbatim>\<open>shortest_path\<close> adds them.
  In \<^verbatim>\<open>fastest_route_with_transfers\<close> below the sums are exact: rounding is not
  modelled there.
\<close>

definition fadd :: "pyfloat \<Rightarrow> real \<Rightarrow> pyfloat" where
  "fadd x w = (case x of Fin a \<Rightarrow> rnd (a + w) | PInf \<Rightarrow> PInf | NInf \<Rightarrow> NInf)"

text \<open>The dataclass \<^verbatim>\<open>Edge\<close>.\<close>

record Edge =
  to_station :: string
  time :: real
  line :: "string option"

text \<open>
  The fields of \<^verbatim>\<open>TransportGraph\<close>. Both dictionaries are maps; the order of the
  keys of a Python dictionary plays no part in any operation modelled here.
\<close>

record TransportGraph =
  adj :: "string \<rightharpoonup> Edge list"
  transfer_waits :: "string \<rightharpoonup> real"
  default_transfer_wait :: real

text \<open>
  The exceptions of the program: \<^verbatim>\<open>ValueError\<close> is raised by the two path searches for an
  unknown station, \<^verbatim>\<open>TypeError\<close> by the comparison of \<^verbatim>\<open>None\<close> with a string,
  \<^verbatim>\<open>IndexError\<close> by a pop from an empty heap and \<^verbatim>\<open>KeyError\<close> by a dictionary
  lookup of a missing key.
\<close>

datatype error = ValueError | TypeError | IndexError | KeyError

section \<open>Graph store\<close>

definition init_graph :: "real \<Rightarrow> TransportGraph" where
  "init_graph w = \<lparr>adj = Map.empty, transfer_waits = Map.empty, default_transfer_wait = w\<rparr>"

definition add_station :: "TransportGraph \<Rightarrow> string \<Rightarrow> real option \<Rightarrow> TransportGraph" where
  "add_station g station_id transfer_wait =
     (let g1 = (if adj g station_id = None then g\<lparr>adj := (adj g)(station_id \<mapsto> [])\<rparr> else g)
      in case transfer_wait of
           None \<Rightarrow> g1
         | Some w \<Rightarrow> g1\<lparr>transfer_waits := (transfer_waits g1)(station_id \<mapsto> w)\<rparr>)"

definition remove_station :: "TransportGraph \<Rightarrow> string \<Rightarrow> TransportGraph" where
  "remove_station g station_id =
     (if adj g station_id = None then g
      else g\<lparr>adj := (\<lambda>s. if s = station_id then None
                         else map_option (filter (\<lambda>e. to_station e \<noteq> station_id)) (adj g s)),
             transfer_waits := (transfer_waits g)(station_id := None)\<rparr>)"

text \<open>
  \<^verbatim>\<open>self.adj[s].append(e)\<close>. In \<^verbatim>\<open>add_connection\<close> the key is always present when
  the statement runs (lemma \<open>add_connection_keys\<close> below), so the branch for a missing
  key, where Python would raise KeyError, is never taken there.
\<close>

definition append_edge :: "TransportGraph \<Rightarrow> string \<Rightarrow> Edge \<Rightarrow> TransportGraph" where
  "append_edge g s e =
     (case adj g s of
        None \<Rightarrow> g
      | Some es \<Rightarrow> g\<lparr>adj := (adj g)(s \<mapsto> es @ [e])\<rparr>)"

definition ensure_station :: "TransportGraph \<Rightarrow> string \<Rightarrow> TransportGraph" where
  "ensure_station g s = (if adj g s = None then add_station g s None else g)"

definition add_connection ::
  "TransportGraph \<Rightarrow> string \<Rightarrow> string \<Rightarrow> real \<Rightarrow> string option \<Rightarrow> bool \<Rightarrow> TransportGraph" where
  "add_connection g from_station to_st t lbl bidirectional =
     (let g1 = ensure_station g from_station;
          g2 = ensure_station g1 to_st;
          g3 = append_edge g2 from_station \<lparr>to_station = to_st, time = t, line = lbl\<rparr>
      in if bidirectional
         then append_edge g3 to_st \<lparr>to_station = from_station, time = t, line = lbl\<rparr>
         else g3)"

text \<open>The test of the list comprehensions in \<^verbatim>\<open>remove_connection\<close>.\<close>

definition conn_matches :: "string \<Rightarrow> string option \<Rightarrow> Edge \<Rightarrow> bool" where
  "conn_matches dest lbl e \<longleftrightarrow> to_station e = dest \<and> (lbl = None \<or> line e = lbl)"

definition drop_edges :: "TransportGraph \<Rightarrow> string \<Rightarrow> string \<Rightarrow> string option \<Rightarrow> TransportGraph" where
  "drop_edges g s dest lbl =
     (case adj g s of
        None \<Rightarrow> g
      | Some es \<Rightarrow> g\<lparr>adj := (adj g)(s \<mapsto> filter (\<lambda>e. \<not> conn_matches dest lbl e) es)\<rparr>)"

definition remove_connection ::
  "TransportGraph \<Rightarrow> string \<Rightarrow> string \<Rightarrow> string option \<Rightarrow> bool \<Rightarrow> TransportGraph" where
  "remove_connection g from_station to_st lbl bidirectional =
     (let g1 = drop_edges g from_station to_st lbl
      in if bidirectional then drop_edges g1 to_st from_station lbl else g1)"

definition routes_from :: "TransportGraph \<Rightarrow> string \<Rightarrow> Edge list" where
  "routes_from g station_id = (case adj g station_id of None \<Rightarrow> [] | Some es \<Rightarrow> es)"

section \<open>The priority queue: \<^verbatim>\<open>heapq\<close>\<close>

text \<open>
  The heap is a Python list, and \<^verbatim>\<open>heappush\<close> and \<^verbatim>\<open>heappop\<close> are the binary-heap
  algorithms of the standard library, which compare two items with \<^verbatim>\<open><\<close> only. The
  comparison is a parameter, since it can raise.

  \<^verbatim>\<open>_siftdown(heap, startpos, pos)\<close>: move the parents of \<open>pos\<close> down until the place
  of the new item is found.
\<close>

function siftdown_loop ::
  "('a \<Rightarrow> 'a \<Rightarrow> error + bool) \<Rightarrow> 'a list \<Rightarrow> nat \<Rightarrow> nat \<Rightarrow> 'a \<Rightarrow> error + 'a list" where
  "siftdown_loop lt heap startpos pos newitem =
     (if pos > startpos then
        (let parentpos = (pos - 1) div 2;
             parent = heap ! parentpos
         in case lt newitem parent of
              Inl err \<Rightarrow> Inl err
            | Inr b \<Rightarrow>
                if b then siftdown_loop lt (heap[pos := parent]) startpos parentpos newitem
                else Inr (heap[pos := newitem]))
      else Inr (heap[pos := newitem]))"
  by pat_completeness auto
termination
  by (relation "measure (\<lambda>(lt, heap, startpos, pos, newitem). pos)") auto

declare siftdown_loop.simps [simp del]

definition siftdown :: "('a \<Rightarrow> 'a \<Rightarrow> error + bool) \<Rightarrow> 'a list \<Rightarrow> nat \<Rightarrow> nat \<Rightarrow> error + 'a list" where
  "siftdown lt heap startpos pos = siftdown_loop lt heap startpos pos (heap ! pos)"

text \<open>
  The first loop of \<^verbatim>\<open>_siftup(heap, pos)\<close>: bubble the smaller child up until a leaf is
  reached; the result is the list and the position of that leaf.
\<close>

function siftup_loop ::
  "('a \<Rightarrow> 'a \<Rightarrow> error + bool) \<Rightarrow> 'a list \<Rightarrow> nat \<Rightarrow> nat \<Rightarrow> error + ('a list \<times> nat)" where
  "siftup_loop lt heap endpos pos =
     (let childpos = 2 * pos + 1 in
      if childpos < endpos then
        (let rightpos = childpos + 1 in
         if rightpos < endpos then
           (case lt (heap ! childpos) (heap ! rightpos) of
              Inl err \<Rightarrow> Inl err
            | Inr b \<Rightarrow>
                (let c = (if \<not> b then rightpos else childpos)
                 in siftup_loop lt (heap[pos := heap ! c]) endpos c))
         else siftup_loop lt (heap[pos := heap ! childpos]) endpos childpos)
      else Inr (heap, pos))"
  by pat_completeness auto
termination
  by (relation "measure (\<lambda>(lt, heap, endpos, pos). endpos - pos)") auto

declare siftup_loop.simps [simp del]

definition siftup :: "('a \<Rightarrow> 'a \<Rightarrow> error + bool) \<Rightarrow> 'a list \<Rightarrow> nat \<Rightarrow> error + 'a list" where
  "siftup lt heap pos =
     (let endpos = length heap;
          startpos = pos;
          newitem = heap ! pos
      in case siftup_loop lt heap endpos pos of
           Inl err \<Rightarrow> Inl err
         | Inr (heap1, pos1) \<Rightarrow> siftdown lt (heap1[pos1 := newitem]) startpos pos1)"

definition heappush :: "('a \<Rightarrow> 'a \<Rightarrow> error + bool) \<Rightarrow> 'a list \<Rightarrow> 'a \<Rightarrow> error + 'a list" where
  "heappush lt heap item = siftdown lt (heap @ [item]) 0 (length heap)"

definition heappop :: "('a \<Rightarrow> 'a \<Rightarrow> error + bool) \<Rightarrow> 'a list \<Rightarrow> error + ('a \<times> 'a list)" where
  "heappop lt heap =
     (if heap = [] then Inl IndexError
      else
        (let lastelt = last heap;
             heap1 = butlast heap
         in if heap1 \<noteq> [] then
              (let returnitem = heap1 ! 0
               in case siftup lt (heap1[0 := lastelt]) 0 of
                    Inl err \<Rightarrow> Inl err
                  | Inr heap2 \<Rightarrow> Inr (returnitem, heap2))
            else Inr (lastelt, heap1)))"

text \<open>
  Python's \<^verbatim>\<open><\<close> on tuples looks for the first position where the two tuples differ
  and compares the components there; equal tuples are not smaller. Two strings compare
  lexicographically, and \<^verbatim>\<open>None\<close> against a string raises \<^verbatim>\<open>TypeError\<close>.
\<close>

definition lt_opt_str :: "string option \<Rightarrow> string option \<Rightarrow> error + bool" where
  "lt_opt_str a b =
     (case a of
        None \<Rightarrow> Inl TypeError
      | Some x \<Rightarrow> (case b of None \<Rightarrow> Inl TypeError | Some y \<Rightarrow> Inr (x < y)))"

section \<open>\<^verbatim>\<open>shortest_path\<close>\<close>

text \<open>The heap items \<^verbatim>\<open>(time_so_far, station, prev_station, line_used)\<close>.\<close>

type_synonym sp_entry = "pyfloat \<times> string \<times> string option \<times> string option"

type_synonym path = "(string \<times> string option) list"

type_synonym sp_state =
  "sp_entry list \<times> (string \<rightharpoonup> pyfloat) \<times> (string \<rightharpoonup> string option \<times> string option)"

definition sp_lt :: "sp_entry \<Rightarrow> sp_entry \<Rightarrow> error + bool" where
  "sp_lt x y =
     (case x of (t1, s1, p1, l1) \<Rightarrow>
      case y of (t2, s2, p2, l2) \<Rightarrow>
        if t1 \<noteq> t2 then Inr (t1 < t2)
        else if s1 \<noteq> s2 then Inr (s1 < s2)
        else if p1 \<noteq> p2 then lt_opt_str p1 p2
        else if l1 \<noteq> l2 then lt_opt_str l1 l2
        else Inr False)"

text \<open>The \<^verbatim>\<open>for\<close> loop over the edges that leave \<open>cur\<close>.\<close>

fun sp_relax ::
  "string \<Rightarrow> pyfloat \<Rightarrow> Edge list \<Rightarrow> (string \<rightharpoonup> pyfloat) \<Rightarrow> sp_entry list
     \<Rightarrow> error + ((string \<rightharpoonup> pyfloat) \<times> sp_entry list)" where
  "sp_relax cur time_so_far [] distm pq = Inr (distm, pq)"
| "sp_relax cur time_so_far (e # es) distm pq =
     (let nxt = to_station e;
          new_time = fadd time_so_far (time e)
      in if (case distm nxt of None \<Rightarrow> True | Some d \<Rightarrow> new_time < d) then
           (case heappush sp_lt pq (new_time, nxt, Some cur, line e) of
              Inl err \<Rightarrow> Inl err
            | Inr pq1 \<Rightarrow> sp_relax cur time_so_far es (distm(nxt \<mapsto> new_time)) pq1)
         else sp_relax cur time_so_far es distm pq)"

text \<open>
  The \<^verbatim>\<open>while pq\<close> loop. It is a partial function: \<open>None\<close> stands for a loop that
  never ends.
\<close>

partial_function (option) sp_loop ::
  "TransportGraph \<Rightarrow> string \<Rightarrow> sp_state \<Rightarrow> (error + sp_state) option" where
  "sp_loop g dst st =
     (case st of (pq, distm, prev) \<Rightarrow>
        if pq = [] then Some (Inr (pq, distm, prev))
        else
          (case heappop sp_lt pq of
             Inl err \<Rightarrow> Some (Inl err)
           | Inr ((time_so_far, cur, prev_station, line_used), pq1) \<Rightarrow>
               if prev cur \<noteq> None then sp_loop g dst (pq1, distm, prev)
               else
                 (let prev1 = prev(cur \<mapsto> (prev_station, line_used))
                  in if cur = dst then Some (Inr (pq1, distm, prev1))
                     else
                       (case sp_relax cur time_so_far (routes_from g cur) distm pq1 of
                          Inl err \<Rightarrow> Some (Inl err)
                        | Inr (distm1, pq2) \<Rightarrow> sp_loop g dst (pq2, distm1, prev1)))))"

text \<open>
  The walk along the predecessor links; a stored pair is never falsy, so the two
  conditional expressions of the source always take the components of the pair.
\<close>

partial_function (option) sp_walk ::
  "(string \<rightharpoonup> string option \<times> string option) \<Rightarrow> string option \<Rightarrow> path \<Rightarrow> (error + path) option" where
  "sp_walk prev cur pth =
     (case cur of
        None \<Rightarrow> Some (Inr pth)
      | Some c \<Rightarrow>
          (case prev c of
             None \<Rightarrow> Some (Inl KeyError)
           | Some (prev_station, line_used) \<Rightarrow> sp_walk prev prev_station (pth @ [(c, line_used)])))"

declare sp_loop.simps [code]
declare sp_walk.simps [code]

definition shortest_path ::
  "TransportGraph \<Rightarrow> string \<Rightarrow> string \<Rightarrow> (error + pyfloat \<times> path) option" where
  "shortest_path g src dst =
     (if adj g src = None \<or> adj g dst = None then Some (Inl ValueError)
      else
        (case heappush sp_lt [] (Fin 0, src, None, None) of
           Inl err \<Rightarrow> Some (Inl err)
         | Inr pq \<Rightarrow>
             (case sp_loop g dst (pq, [src \<mapsto> Fin 0], Map.empty) of
                None \<Rightarrow> None
              | Some (Inl err) \<Rightarrow> Some (Inl err)
              | Some (Inr (pq1, distm, prev)) \<Rightarrow>
                  if prev dst = None then Some (Inr (PInf, []))
                  else
                    (case sp_walk prev (Some dst) [] of
                       None \<Rightarrow> None
                     | Some (Inl err) \<Rightarrow> Some (Inl err)
                     | Some (Inr pth) \<Rightarrow>
                         (case distm dst of
                            None \<Rightarrow> Some (Inl KeyError)
                          | Some d \<Rightarrow> Some (Inr (d, rev pth)))))))"

section \<open>\<^verbatim>\<open>fastest_route_with_transfers\<close>\<close>

text \<open>The heap items \<^verbatim>\<open>(time_so_far, station, current_line, transfers_used)\<close>.\<close>

type_synonym frt_entry = "real \<times> string \<times> string option \<times> int"

type_synonym frt_key = "string \<times> string option \<times> int"

type_synonym frt_state =
  "frt_entry list \<times> (frt_key \<rightharpoonup> real) \<times> (frt_key \<rightharpoonup> frt_key \<times> string option)"

definition frt_lt :: "frt_entry \<Rightarrow> frt_entry \<Rightarrow> error + bool" where
  "frt_lt x y =
     (case x of (t1, s1, l1, n1) \<Rightarrow>
      case y of (t2, s2, l2, n2) \<Rightarrow>
        if t1 \<noteq> t2 then Inr (t1 < t2)
        else if s1 \<noteq> s2 then Inr (s1 < s2)
        else if l1 \<noteq> l2 then lt_opt_str l1 l2
        else if n1 \<noteq> n2 then Inr (n1 < n2)
        else Inr False)"

text \<open>The tolerance \<^verbatim>\<open>1e-9\<close>.\<close>

definition tol :: real where
  "tol = 1 / 1000000000"

text \<open>
  The wait and the transfer count of one edge: \<^verbatim>\<open>added_wait\<close> and
  \<^verbatim>\<open>new_transfers\<close> as the body of the \<^verbatim>\<open>for\<close> loop computes them from the
  station \<open>cur\<close>, the current line and the line of the edge; \<open>wait_at\<close> is
  \<^verbatim>\<open>self.transfer_waits.get(cur, self.default_transfer_wait)\<close>.
\<close>

definition wait_at :: "TransportGraph \<Rightarrow> string \<Rightarrow> real" where
  "wait_at g cur =
     (case transfer_waits g cur of None \<Rightarrow> default_transfer_wait g | Some w \<Rightarrow> w)"

definition transfer_step ::
  "TransportGraph \<Rightarrow> string \<Rightarrow> string option \<Rightarrow> string option \<Rightarrow> int \<Rightarrow> real \<times> int" where
  "transfer_step g cur cur_line edge_line transfers_used =
     (if cur_line = None then (0, transfers_used)
      else if edge_line \<noteq> None \<and> cur_line \<noteq> edge_line then
        (wait_at g cur, transfers_used + 1)
      else (0, transfers_used))"

text \<open>The \<^verbatim>\<open>for\<close> loop over the edges that leave \<open>cur\<close>.\<close>

fun frt_relax ::
  "TransportGraph \<Rightarrow> int option \<Rightarrow> frt_entry \<Rightarrow> Edge list \<Rightarrow> frt_state \<Rightarrow> error + frt_state" where
  "frt_relax g max_transfers item [] st = Inr st"
| "frt_relax g max_transfers item (e # es) st =
     (case item of (time_so_far, cur, cur_line, transfers_used) \<Rightarrow>
      case st of (pq, best, parent) \<Rightarrow>
        (let nxt = to_station e;
             edge_line = line e;
             travel_time = time e;
             (added_wait, new_transfers) = transfer_step g cur cur_line edge_line transfers_used;
             new_time = time_so_far + added_wait + travel_time
         in if (case max_transfers of None \<Rightarrow> False | Some m \<Rightarrow> new_transfers > m)
            then frt_relax g max_transfers item es st
            else
              (let new_key = (nxt, edge_line, new_transfers)
               in if (case best new_key of None \<Rightarrow> True | Some b \<Rightarrow> new_time + tol < b) then
                    (case heappush frt_lt pq (new_time, nxt, edge_line, new_transfers) of
                       Inl err \<Rightarrow> Inl err
                     | Inr pq1 \<Rightarrow>
                         frt_relax g max_transfers item es
                           (pq1, best(new_key \<mapsto> new_time),
                            parent(new_key \<mapsto> ((cur, cur_line, transfers_used), edge_line))))
                  else frt_relax g max_transfers item es st)))"

text \<open>The walk \<^verbatim>\<open>while k in parent\<close> that collects the path backwards.\<close>

partial_function (option) frt_walk ::
  "(frt_key \<rightharpoonup> frt_key \<times> string option) \<Rightarrow> frt_key \<Rightarrow> path \<Rightarrow> path option" where
  "frt_walk parent k path_states =
     (case parent k of
        None \<Rightarrow> Some path_states
      | Some (prev_k, line_used) \<Rightarrow> frt_walk parent prev_k (path_states @ [(fst k, line_used)]))"

text \<open>The \<^verbatim>\<open>while pq\<close> loop with the two ways out of it.\<close>

partial_function (option) frt_loop ::
  "TransportGraph \<Rightarrow> string \<Rightarrow> string \<Rightarrow> int option \<Rightarrow> frt_state
     \<Rightarrow> (error + pyfloat \<times> path) option" where
  "frt_loop g src dst max_transfers st =
     (case st of (pq, best, parent) \<Rightarrow>
        if pq = [] then Some (Inr (PInf, []))
        else
          (case heappop frt_lt pq of
             Inl err \<Rightarrow> Some (Inl err)
           | Inr ((time_so_far, cur, cur_line, transfers_used), pq1) \<Rightarrow>
               if (case best (cur, cur_line, transfers_used) of
                     None \<Rightarrow> False
                   | Some b \<Rightarrow> b < time_so_far - tol)
               then frt_loop g src dst max_transfers (pq1, best, parent)
               else if cur = dst then
                 (case frt_walk parent (cur, cur_line, transfers_used) [] of
                    None \<Rightarrow> None
                  | Some path_states \<Rightarrow>
                      Some (Inr (Fin time_so_far, rev (path_states @ [(src, None)]))))
               else
                 (case frt_relax g max_transfers (time_so_far, cur, cur_line, transfers_used)
                         (routes_from g cur) (pq1, best, parent) of
                    Inl err \<Rightarrow> Some (Inl err)
                  | Inr st1 \<Rightarrow> frt_loop g src dst max_transfers st1)))"

declare frt_walk.simps [code]
declare frt_loop.simps [code]

definition fastest_route_with_transfers ::
  "TransportGraph \<Rightarrow> string \<Rightarrow> string \<Rightarrow> int option \<Rightarrow> (error + pyfloat \<times> path) option" where
  "fastest_route_with_transfers g src dst max_transfers =
     (if adj g src = None \<or> adj g dst = None then Some (Inl ValueError)
      else
        (case heappush frt_lt [] (0, src, None, 0) of
           Inl err \<Rightarrow> Some (Inl err)
         | Inr pq \<Rightarrow> frt_loop g src dst max_transfers (pq, [(src, None, 0) \<mapsto> 0], Map.empty)))"

section \<open>Concrete networks\<close>

text \<open>
  The network of the concrete scenarios of the specification: A - B on line 1, B - C on
  line 2, every connection in both directions and of duration 5, default wait 4.
\<close>

definition abc_graph :: TransportGraph where
  "abc_graph =
     add_connection (add_connection (init_graph 4) ''A'' ''B'' 5 (Some ''1'') True)
       ''B'' ''C'' 5 (Some ''2'') True"


text \<open>Two parallel connections A - B of the same duration, one unlabeled, one on line 1.\<close>

definition par_graph :: TransportGraph where
  "par_graph =
     add_connection (add_connection (init_graph 4) ''A'' ''B'' 5 None True)
       ''A'' ''B'' 5 (Some ''1'') True"

text \<open>The same with a third station C that no connection reaches.\<close>

definition par_c_graph :: TransportGraph where
  "par_c_graph = add_station par_graph ''C'' None"

text \<open>
  One-way connections: A to B on line 1 (1 minute), then B to C either on line 2
  (2 minutes, after a wait of 4) or unlabeled (6 minutes).
\<close>

definition tie_graph :: TransportGraph where
  "tie_graph =
     add_connection
       (add_connection (add_connection (init_graph 4) ''A'' ''B'' 1 (Some ''1'') False)
          ''B'' ''C'' 2 (Some ''2'') False)
       ''B'' ''C'' 6 None False"

text \<open>
  A one-way cycle A to B on line 1 and B to A on line 2, and a station C that no
  connection reaches.
\<close>

definition loop_graph :: TransportGraph where
  "loop_graph =
     add_station
       (add_connection (add_connection (init_graph 4) ''A'' ''B'' 1 (Some ''1'') False)
          ''B'' ''A'' 1 (Some ''2'') False)
       ''C'' None"

text \<open>
  The doubles that Python writes 0.1, 0.2 and 0.3, and the one-way chain A to B to C to D
  with these durations, all connections unlabeled, with its only path from A to D.
\<close>

definition d01 :: real where
  "d01 = 3602879701896397 / 36028797018963968"

definition d02 :: real where
  "d02 = 3602879701896397 / 18014398509481984"

definition d03 :: real where
  "d03 = 5404319552844595 / 18014398509481984"

definition dec_graph :: TransportGraph where
  "dec_graph =
     add_connection
       (add_connection (add_connection (init_graph 4) ''A'' ''B'' d01 None False)
          ''B'' ''C'' d02 None False)
       ''C'' ''D'' d03 None False"

definition dec_path :: "Edge list" where
  "dec_path =
     [\<lparr>to_station = ''B'', time = d01, line = None\<rparr>,
      \<lparr>to_station = ''C'', time = d02, line = None\<rparr>,
      \<lparr>to_station = ''D'', time = d03, line = None\<rparr>]"

section \<open>Specification of the heap\<close>

text \<open>
  The parent of position \<open>i\<close> in the list that holds the binary heap, and the heap
  property under a key function into a linear order: no item is smaller than its
  parent.
\<close>

definition parent_of :: "nat \<Rightarrow> nat" where
  "parent_of i = (i - 1) div 2"

definition heap_inv :: "('a \<Rightarrow> 'k::linorder) \<Rightarrow> 'a list \<Rightarrow> bool" where
  "heap_inv key h \<longleftrightarrow> (\<forall>i. 0 < i \<and> i < length h \<longrightarrow> key (h ! parent_of i) \<le> key (h ! i))"

text \<open>
  On the items of \<open>A\<close> the comparison never raises and agrees with the order of the
  keys.
\<close>

definition ord_on :: "('a \<Rightarrow> 'a \<Rightarrow> error + bool) \<Rightarrow> ('a \<Rightarrow> 'k::linorder) \<Rightarrow> 'a set \<Rightarrow> bool" where
  "ord_on lt key A \<longleftrightarrow> (\<forall>a\<in>A. \<forall>b\<in>A. lt a b = Inr (key a < key b))"

text \<open>
  The list during the two loops of the heap algorithms, with a hole at \<open>pos\<close>: every
  item but the one at the hole is at least its parent, and the children of the hole are
  at least the parent of the hole. In \<open>hole_inv\<close> the item \<open>x\<close> that will fill the hole
  is also at most the children of the hole.
\<close>

definition bub_inv :: "('a \<Rightarrow> 'k::linorder) \<Rightarrow> 'a list \<Rightarrow> nat \<Rightarrow> bool" where
  "bub_inv key h pos \<longleftrightarrow>
     pos < length h \<and>
     (\<forall>i. 0 < i \<and> i < length h \<and> i \<noteq> pos \<and> parent_of i \<noteq> pos
          \<longrightarrow> key (h ! parent_of i) \<le> key (h ! i)) \<and>
     (\<forall>i. 0 < i \<and> i < length h \<and> parent_of i = pos \<and> 0 < pos
          \<longrightarrow> key (h ! parent_of pos) \<le> key (h ! i))"

definition hole_inv :: "('a \<Rightarrow> 'k::linorder) \<Rightarrow> 'a list \<Rightarrow> nat \<Rightarrow> 'a \<Rightarrow> bool" where
  "hole_inv key h pos x \<longleftrightarrow>
     bub_inv key h pos \<and>
     (\<forall>i. 0 < i \<and> i < length h \<and> parent_of i = pos \<longrightarrow> key x \<le> key (h ! i))"

section \<open>Specification of the rounding\<close>

text \<open>
  The spacings of the doubles, from the smallest, and what it means that \<open>u\<close> is the
  spacing of the doubles around \<open>x\<close>. A float is a double when rounding does not change
  it.
\<close>

definition grid :: "nat \<Rightarrow> real" where
  "grid j = 2 ^ j / 2 ^ 1074"

definition binade :: "real \<Rightarrow> real \<Rightarrow> bool" where
  "binade u x \<longleftrightarrow>
     (\<exists>j. j \<le> 2045 \<and> u = grid j \<and>
        (j = 0 \<or> u * two52 \<le> x) \<and> (j = 2045 \<or> x < u * two53))"

definition is_dbl :: "pyfloat \<Rightarrow> bool" where
  "is_dbl x \<longleftrightarrow> (case x of Fin a \<Rightarrow> rnd a = Fin a | PInf \<Rightarrow> True | NInf \<Rightarrow> True)"

section \<open>Paths and the invariant of \<^verbatim>\<open>shortest_path\<close>\<close>

text \<open>
  A directed path from \<open>a\<close> to \<open>b\<close> is a list of stored edges, each leaving the station
  the one before it arrives at. Its time is the sum of the durations: \<open>path_time\<close> is
  the exact sum, \<open>float_path_time\<close> the sum in doubles, taken from 0.0 and from the
  first edge to the last.
\<close>

fun is_path :: "TransportGraph \<Rightarrow> string \<Rightarrow> Edge list \<Rightarrow> string \<Rightarrow> bool" where
  "is_path g a [] b \<longleftrightarrow> a = b"
| "is_path g a (e # es) b \<longleftrightarrow> e \<in> set (routes_from g a) \<and> is_path g (to_station e) es b"

definition path_time :: "Edge list \<Rightarrow> real" where
  "path_time p = sum_list (map time p)"

definition float_sum_from :: "pyfloat \<Rightarrow> Edge list \<Rightarrow> pyfloat" where
  "float_sum_from x p = foldl (\<lambda>t e. fadd t (time e)) x p"

definition float_path_time :: "Edge list \<Rightarrow> pyfloat" where
  "float_path_time p = float_sum_from (Fin 0) p"

text \<open>Every stored edge has a non-negative duration.\<close>

definition nonneg_durations :: "TransportGraph \<Rightarrow> bool" where
  "nonneg_durations g \<longleftrightarrow> (\<forall>s es. adj g s = Some es \<longrightarrow> (\<forall>e \<in> set es. 0 \<le> time e))"

text \<open>The components of a heap item, and the key that orders the heap: time, then station.\<close>

definition sp_time :: "sp_entry \<Rightarrow> pyfloat" where
  "sp_time x = fst x"

definition sp_station :: "sp_entry \<Rightarrow> string" where
  "sp_station x = fst (snd x)"

definition sp_pred :: "sp_entry \<Rightarrow> string option" where
  "sp_pred x = fst (snd (snd x))"

definition sp_key :: "sp_entry \<Rightarrow> pyfloat \<times> string" where
  "sp_key x = (sp_time x, sp_station x)"

text \<open>
  The parts of the loop invariant: the heap is well formed, its items have distinct
  keys and their times are doubles; every item's station has a recorded distance not
  above the item's time; every station with a distance that is not finalized yet has an
  item of exactly that distance; the edges in \<open>E u\<close> of every finalized station \<open>u\<close> have
  been relaxed; every finalized station has a distance; the predecessor named by an item
  is finalized; and the predecessor links go down along a ranking, so a walk along them
  ends.
\<close>

definition sp_heap_ok :: "sp_entry list \<Rightarrow> bool" where
  "sp_heap_ok pq \<longleftrightarrow>
     heap_inv sp_key pq \<and> inj_on sp_key (set pq) \<and> (\<forall>x \<in> set pq. is_dbl (sp_time x))"

definition dist_le_pq :: "(string \<rightharpoonup> pyfloat) \<Rightarrow> sp_entry list \<Rightarrow> bool" where
  "dist_le_pq distm pq \<longleftrightarrow> (\<forall>x \<in> set pq. \<exists>d. distm (sp_station x) = Some d \<and> d \<le> sp_time x)"

definition open_in_pq ::
  "(string \<rightharpoonup> pyfloat) \<Rightarrow> (string \<rightharpoonup> string option \<times> string option) \<Rightarrow> sp_entry list \<Rightarrow> bool" where
  "open_in_pq distm prev pq \<longleftrightarrow>
     (\<forall>s d. distm s = Some d \<and> prev s = None \<longrightarrow> (\<exists>p l. (d, s, p, l) \<in> set pq))"

definition relaxed ::
  "(string \<Rightarrow> Edge set) \<Rightarrow> (string \<rightharpoonup> pyfloat) \<Rightarrow> (string \<rightharpoonup> string option \<times> string option) \<Rightarrow> bool" where
  "relaxed E distm prev \<longleftrightarrow>
     (\<forall>u du e. prev u \<noteq> None \<and> distm u = Some du \<and> e \<in> E u
        \<longrightarrow> (\<exists>d. distm (to_station e) = Some d \<and> d \<le> fadd du (time e)))"

definition closed_dist ::
  "(string \<rightharpoonup> pyfloat) \<Rightarrow> (string \<rightharpoonup> string option \<times> string option) \<Rightarrow> bool" where
  "closed_dist distm prev \<longleftrightarrow> (\<forall>u. prev u \<noteq> None \<longrightarrow> distm u \<noteq> None)"

definition preds_closed ::
  "(string \<rightharpoonup> string option \<times> string option) \<Rightarrow> sp_entry list \<Rightarrow> bool" where
  "preds_closed prev pq \<longleftrightarrow> (\<forall>x \<in> set pq. \<forall>q. sp_pred x = Some q \<longrightarrow> prev q \<noteq> None)"

definition ranked :: "(string \<rightharpoonup> string option \<times> string option) \<Rightarrow> bool" where
  "ranked prev \<longleftrightarrow>
     (\<exists>rank :: string \<Rightarrow> nat. \<forall>c p l. prev c = Some (Some p, l) \<longrightarrow> prev p \<noteq> None \<and> rank p < rank c)"

text \<open>
  The invariant inside the \<^verbatim>\<open>for\<close> loop that relaxes the edges of \<open>cur\<close>, popped at
  time \<open>t\<close>, when the edges \<open>seen\<close> have been handled; and the invariant at the head of
  the \<^verbatim>\<open>while\<close> loop.
\<close>

definition sp_mid ::
  "TransportGraph \<Rightarrow> string \<Rightarrow> string \<Rightarrow> pyfloat \<Rightarrow> (string \<rightharpoonup> string option \<times> string option)
     \<Rightarrow> Edge list \<Rightarrow> sp_entry list \<Rightarrow> (string \<rightharpoonup> pyfloat) \<Rightarrow> bool" where
  "sp_mid g src cur t prev1 seen pq distm \<longleftrightarrow>
     sp_heap_ok pq \<and> distm src = Some (Fin 0) \<and> Fin 0 \<le> t \<and> is_dbl t \<and>
     (\<forall>x \<in> set pq. t \<le> sp_time x) \<and>
     dist_le_pq distm pq \<and> open_in_pq distm prev1 pq \<and>
     (\<forall>u du. prev1 u \<noteq> None \<and> distm u = Some du \<longrightarrow> du \<le> t) \<and>
     relaxed (\<lambda>u. if u = cur then set seen else set (routes_from g u)) distm prev1 \<and>
     closed_dist distm prev1 \<and> preds_closed prev1 pq \<and> distm cur = Some t \<and> prev1 cur \<noteq> None"

definition sp_inv ::
  "TransportGraph \<Rightarrow> string \<Rightarrow> string \<Rightarrow> sp_entry list \<Rightarrow> (string \<rightharpoonup> pyfloat)
     \<Rightarrow> (string \<rightharpoonup> string option \<times> string option) \<Rightarrow> bool" where
  "sp_inv g src dst pq distm prev \<longleftrightarrow>
     sp_heap_ok pq \<and> distm src = Some (Fin 0) \<and> (\<forall>x \<in> set pq. Fin 0 \<le> sp_time x) \<and>
     dist_le_pq distm pq \<and> open_in_pq distm prev pq \<and>
     (\<forall>u du. prev u \<noteq> None \<and> distm u = Some du \<longrightarrow> (\<forall>x \<in> set pq. du \<le> sp_time x)) \<and>
     relaxed (\<lambda>u. set (routes_from g u)) distm prev \<and>
     closed_dist distm prev \<and> preds_closed prev pq \<and> ranked prev \<and> prev dst = None"

text \<open>
  What holds when the \<^verbatim>\<open>while\<close> loop is left, and the measure that decreases with
  every turn: the items on the heap plus the edges of the stations not finalized yet.
\<close>

definition sp_post ::
  "TransportGraph \<Rightarrow> string \<Rightarrow> string \<Rightarrow> (string \<rightharpoonup> pyfloat)
     \<Rightarrow> (string \<rightharpoonup> string option \<times> string option) \<Rightarrow> bool" where
  "sp_post g src dst distm prev \<longleftrightarrow>
     (prev dst = None \<longrightarrow> (\<forall>p. \<not> is_path g src p dst)) \<and>
     (prev dst \<noteq> None \<longrightarrow>
        ranked prev \<and>
        (\<exists>d. distm dst = Some d \<and> (\<forall>p. is_path g src p dst \<longrightarrow> d \<le> float_path_time p)))"

definition sp_measure ::
  "TransportGraph \<Rightarrow> sp_entry list \<Rightarrow> (string \<rightharpoonup> string option \<times> string option) \<Rightarrow> nat" where
  "sp_measure g pq prev =
     length pq + (\<Sum>s \<in> {s \<in> dom (adj g). prev s = None}. length (routes_from g s))"

text \<open>
  The states of the \<^verbatim>\<open>while pq\<close> loop of \<^verbatim>\<open>fastest_route_with_transfers\<close> on the
  cycle of \<open>loop_graph\<close>: the heap holds one item, at A on line 2 or at B on line 1,
  whose time is the best time of its key, and no key with more transfers has a best
  time yet.
\<close>

definition cyc_inv :: "frt_state \<Rightarrow> bool" where
  "cyc_inv st \<longleftrightarrow>
     (case st of (pq, best, parent) \<Rightarrow>
        \<exists>t cur cl n. pq = [(t, cur, cl, n)] \<and>
          ((cur = ''A'' \<and> cl = Some ''2'') \<or> (cur = ''B'' \<and> cl = Some ''1'')) \<and>
          best (cur, cl, n) = Some t \<and> (\<forall>s l m. n < m \<longrightarrow> best (s, l, m) = None))"

text \<open>
  Referential integrity: the destination of every stored edge is a key of the
  adjacency dictionary.
\<close>

definition ref_integrity :: "TransportGraph \<Rightarrow> bool" where
  "ref_integrity g \<longleftrightarrow>
     (\<forall>s es. adj g s = Some es \<longrightarrow> (\<forall>e \<in> set es. adj g (to_station e) \<noteq> None))"

section \<open>Properties of the graph store\<close>

lemma adj_add_station:
  "adj (add_station g s w) = (if adj g s = None then (adj g)(s \<mapsto> []) else adj g)"
  by (cases w) (simp_all add: add_station_def Let_def)

lemma adj_ensure_station:
  "adj (ensure_station g s) = (if adj g s = None then (adj g)(s \<mapsto> []) else adj g)"
  by (simp add: ensure_station_def adj_add_station)

lemma add_connection_keys:
  "adj (ensure_station (ensure_station g a) b) a \<noteq> None"
  "adj (ensure_station (ensure_station g a) b) b \<noteq> None"
  by (simp_all add: adj_ensure_station)

lemma ref_integrity_init: "ref_integrity (init_graph w)"
  by (simp add: ref_integrity_def init_graph_def)

lemma ref_integrity_add_station:
  assumes "ref_integrity g"
  shows "ref_integrity (add_station g s w)"
  using assms unfolding ref_integrity_def adj_add_station
  by (auto split: if_splits)

lemma ref_integrity_ensure_station:
  assumes "ref_integrity g"
  shows "ref_integrity (ensure_station g s)"
  using assms by (simp add: ensure_station_def ref_integrity_add_station)

lemma ref_integrity_remove_station:
  assumes "ref_integrity g"
  shows "ref_integrity (remove_station g s)"
proof (cases "adj g s = None")
  case True
  then show ?thesis using assms by (simp add: remove_station_def)
next
  case False
  show ?thesis
    unfolding ref_integrity_def
  proof (intro allI impI ballI)
    fix u es e
    assume look: "adj (remove_station g s) u = Some es" and mem: "e \<in> set es"
    from look False obtain es0 where u: "u \<noteq> s" "adj g u = Some es0"
      and es: "es = filter (\<lambda>e. to_station e \<noteq> s) es0"
      by (auto simp: remove_station_def split: if_splits)
    from mem es have e: "e \<in> set es0" "to_station e \<noteq> s" by auto
    with assms u have "adj g (to_station e) \<noteq> None"
      by (auto simp: ref_integrity_def)
    with e False show "adj (remove_station g s) (to_station e) \<noteq> None"
      by (auto simp: remove_station_def)
  qed
qed

lemma ref_integrity_append_edge:
  assumes "ref_integrity g" and "adj g (to_station e) \<noteq> None"
  shows "ref_integrity (append_edge g s e)"
  using assms unfolding ref_integrity_def append_edge_def
  by (auto split: option.splits if_splits)

lemma adj_append_edge_None: "adj (append_edge g s e) u = None \<longleftrightarrow> adj g u = None"
  by (simp add: append_edge_def split: option.splits)

lemma ref_integrity_add_connection:
  assumes "ref_integrity g"
  shows "ref_integrity (add_connection g a b t lbl bi)"
proof -
  let ?g2 = "ensure_station (ensure_station g a) b"
  have i2: "ref_integrity ?g2"
    using assms by (simp add: ref_integrity_ensure_station)
  let ?g3 = "append_edge ?g2 a \<lparr>to_station = b, time = t, line = lbl\<rparr>"
  have i3: "ref_integrity ?g3"
    using i2 add_connection_keys(2)[of g a b] by (simp add: ref_integrity_append_edge)
  have "adj ?g3 a \<noteq> None"
    using add_connection_keys(1)[of g a b] by (simp add: adj_append_edge_None)
  then have "ref_integrity (append_edge ?g3 b \<lparr>to_station = a, time = t, line = lbl\<rparr>)"
    using i3 by (simp add: ref_integrity_append_edge)
  with i3 show ?thesis by (simp add: add_connection_def Let_def)
qed

lemma ref_integrity_drop_edges:
  assumes "ref_integrity g"
  shows "ref_integrity (drop_edges g s d lbl)"
  using assms unfolding ref_integrity_def drop_edges_def
  by (auto split: option.splits if_splits)

lemma ref_integrity_remove_connection:
  assumes "ref_integrity g"
  shows "ref_integrity (remove_connection g a b lbl bi)"
  using assms by (simp add: remove_connection_def Let_def ref_integrity_drop_edges)

text \<open>
  Claim C9. Referential integrity (the destination of every stored edge is a key of the
  adjacency dictionary) holds for the freshly constructed graph and is preserved by
  \<^verbatim>\<open>add_station\<close>, \<^verbatim>\<open>remove_station\<close>, \<^verbatim>\<open>add_connection\<close> and
  \<^verbatim>\<open>remove_connection\<close>, whatever their arguments.
\<close>

theorem ref_integrity_preserved:
  "ref_integrity (init_graph w0) \<and>
   (ref_integrity g \<longrightarrow>
      ref_integrity (add_station g s w) \<and>
      ref_integrity (remove_station g s) \<and>
      ref_integrity (add_connection g a b t lbl bi) \<and>
      ref_integrity (remove_connection g a b lbl bi))"
  by (simp add: ref_integrity_init ref_integrity_add_station ref_integrity_remove_station
      ref_integrity_add_connection ref_integrity_remove_connection)

theorem ref_integrity_preserved_witness:
  "ref_integrity (add_connection (init_graph 4) ''A'' ''B'' 5 (Some ''1'') True) \<and>
   ref_integrity (add_station (add_connection (init_graph 4) ''A'' ''B'' 5 (Some ''1'') True)
      ''C'' (Some 2)) \<and>
   ref_integrity (remove_station (add_connection (init_graph 4) ''A'' ''B'' 5 (Some ''1'') True)
      ''B'') \<and>
   ref_integrity (add_connection (add_connection (init_graph 4) ''A'' ''B'' 5 (Some ''1'') True)
      ''B'' ''C'' 5 (Some ''2'') True) \<and>
   ref_integrity (remove_connection (add_connection (init_graph 4) ''A'' ''B'' 5 (Some ''1'') True)
      ''A'' ''B'' None True)"
proof -
  have h: "ref_integrity (add_connection (init_graph 4) ''A'' ''B'' 5 (Some ''1'') True)"
    by (simp add: ref_integrity_def add_connection_def ensure_station_def add_station_def
        append_edge_def init_graph_def)
  show ?thesis
    using h ref_integrity_preserved
      [of 4 "add_connection (init_graph 4) ''A'' ''B'' 5 (Some ''1'') True"
          "''C''" "Some 2"]
      ref_integrity_preserved
      [of 4 "add_connection (init_graph 4) ''A'' ''B'' 5 (Some ''1'') True"
          "''B''" None "''B''" "''C''" 5 "Some ''2''" True]
      ref_integrity_preserved
      [of 4 "add_connection (init_graph 4) ''A'' ''B'' 5 (Some ''1'') True"
          "''B''" None "''A''" "''B''" 5 None True]
    by blast
qed

subsection \<open>Adding and then removing a connection\<close>

lemma routes_from_init [simp]: "routes_from (init_graph w) u = []"
  by (simp add: routes_from_def init_graph_def)

lemma routes_from_ensure_station [simp]:
  "routes_from (ensure_station g s) u = routes_from g u"
  by (simp add: routes_from_def adj_ensure_station)

lemma adj_ensure_station_None:
  "adj (ensure_station g s) u = None \<longleftrightarrow> adj g u = None \<and> u \<noteq> s"
  by (simp add: adj_ensure_station)

lemma routes_from_append_edge:
  assumes "adj g s \<noteq> None"
  shows "routes_from (append_edge g s e) u =
           (if u = s then routes_from g s @ [e] else routes_from g u)"
  using assms by (auto simp: routes_from_def append_edge_def split: option.splits)

lemma routes_from_drop_edges:
  "routes_from (drop_edges g s d lbl) u =
     (if u = s then filter (\<lambda>e. \<not> conn_matches d lbl e) (routes_from g s)
      else routes_from g u)"
  by (auto simp: routes_from_def drop_edges_def split: option.splits)

lemma routes_from_add_connection:
  "routes_from (add_connection g a b t lbl True) u =
     (if u = a then routes_from g a @ [\<lparr>to_station = b, time = t, line = lbl\<rparr>]
      else routes_from g u) @
     (if u = b then [\<lparr>to_station = a, time = t, line = lbl\<rparr>] else [])"
proof -
  let ?g2 = "ensure_station (ensure_station g a) b"
  let ?g3 = "append_edge ?g2 a \<lparr>to_station = b, time = t, line = lbl\<rparr>"
  have a: "adj ?g2 a \<noteq> None" and b: "adj ?g3 b \<noteq> None"
    by (simp_all add: adj_append_edge_None adj_ensure_station_None)
  show ?thesis
    by (simp add: add_connection_def Let_def routes_from_append_edge [OF b]
        routes_from_append_edge [OF a])
qed

lemma routes_from_remove_connection:
  "routes_from (remove_connection g a b lbl True) u =
     filter (\<lambda>e. \<not> (u = b \<and> conn_matches a lbl e))
       (filter (\<lambda>e. \<not> (u = a \<and> conn_matches b lbl e)) (routes_from g u))"
  by (simp add: remove_connection_def Let_def routes_from_drop_edges)

text \<open>
  Claim C6, as stated, fails: \<^verbatim>\<open>remove_connection\<close> deletes every stored edge towards
  the given station that carries the given line, also one that was there before the
  connection was added. With an edge from A to B on line 1 stored already, adding a second
  connection from A to B on line 1 and removing it again leaves A without any edge.
\<close>

theorem add_remove_roundtrip_counterexample:
  "routes_from
     (remove_connection
        (add_connection (add_connection (init_graph 4) ''A'' ''B'' 5 (Some ''1'') True)
           ''A'' ''B'' 7 (Some ''1'') True)
        ''A'' ''B'' (Some ''1'') True) ''A''
   \<noteq> routes_from (add_connection (init_graph 4) ''A'' ''B'' 5 (Some ''1'') True) ''A''"
  by (simp add: routes_from_remove_connection routes_from_add_connection conn_matches_def)

text \<open>
  Claim C6, amended. When the graph stores no edge from \<open>a\<close> to \<open>b\<close> and no edge from
  \<open>b\<close> to \<open>a\<close> that \<^verbatim>\<open>remove_connection(a, b, line)\<close> would match, then adding the
  connection \<open>(a, b, t, line)\<close> in both directions and removing it in both directions
  with the same line gives every station the list of outgoing edges it had before.
\<close>

theorem add_remove_roundtrip:
  assumes "\<forall>e \<in> set (routes_from g a). \<not> conn_matches b lbl e"
    and "\<forall>e \<in> set (routes_from g b). \<not> conn_matches a lbl e"
  shows "routes_from (remove_connection (add_connection g a b t lbl True) a b lbl True) u
           = routes_from g u"
proof -
  have new: "conn_matches b lbl \<lparr>to_station = b, time = t, line = lbl\<rparr>"
    "conn_matches a lbl \<lparr>to_station = a, time = t, line = lbl\<rparr>"
    by (simp_all add: conn_matches_def)
  have fa: "filter (\<lambda>e. \<not> conn_matches b lbl e) (routes_from g a) = routes_from g a"
    using assms(1) by (simp add: filter_id_conv)
  have fb: "filter (\<lambda>e. \<not> conn_matches a lbl e) (routes_from g b) = routes_from g b"
    using assms(2) by (simp add: filter_id_conv)
  show ?thesis
  proof (cases "u = a")
    case ua: True
    show ?thesis
    proof (cases "a = b")
      case True
      with ua new fa show ?thesis
        by (simp add: routes_from_remove_connection routes_from_add_connection)
    next
      case False
      with ua new fa show ?thesis
        by (simp add: routes_from_remove_connection routes_from_add_connection)
    qed
  next
    case ua: False
    show ?thesis
    proof (cases "u = b")
      case True
      with ua new fb show ?thesis
        by (simp add: routes_from_remove_connection routes_from_add_connection)
    next
      case False
      with ua show ?thesis
        by (simp add: routes_from_remove_connection routes_from_add_connection)
    qed
  qed
qed

theorem add_remove_roundtrip_witness:
  "routes_from (add_connection (init_graph 4) ''A'' ''B'' 5 (Some ''1'') True) ''A''
     = [\<lparr>to_station = ''B'', time = 5, line = Some ''1''\<rparr>] \<and>
   \<not> conn_matches ''B'' (Some ''2'') \<lparr>to_station = ''B'', time = 5, line = Some ''1''\<rparr> \<and>
   routes_from (add_connection (init_graph 4) ''A'' ''B'' 5 (Some ''1'') True) ''B''
     = [\<lparr>to_station = ''A'', time = 5, line = Some ''1''\<rparr>] \<and>
   \<not> conn_matches ''A'' (Some ''2'') \<lparr>to_station = ''A'', time = 5, line = Some ''1''\<rparr> \<and>
   routes_from
     (remove_connection
        (add_connection (add_connection (init_graph 4) ''A'' ''B'' 5 (Some ''1'') True)
           ''A'' ''B'' 7 (Some ''2'') True)
        ''A'' ''B'' (Some ''2'') True) ''A''
   = [\<lparr>to_station = ''B'', time = 5, line = Some ''1''\<rparr>]"
proof -
  have ra: "routes_from (add_connection (init_graph 4) ''A'' ''B'' 5 (Some ''1'') True) ''A''
          = [\<lparr>to_station = ''B'', time = 5, line = Some ''1''\<rparr>]"
    by (simp add: routes_from_add_connection)
  have rb: "routes_from (add_connection (init_graph 4) ''A'' ''B'' 5 (Some ''1'') True) ''B''
          = [\<lparr>to_station = ''A'', time = 5, line = Some ''1''\<rparr>]"
    by (simp add: routes_from_add_connection)
  have h1: "\<forall>e \<in> set (routes_from (add_connection (init_graph 4) ''A'' ''B'' 5 (Some ''1'') True) ''A'').
      \<not> conn_matches ''B'' (Some ''2'') e"
    by (simp add: ra conn_matches_def)
  have h2: "\<forall>e \<in> set (routes_from (add_connection (init_graph 4) ''A'' ''B'' 5 (Some ''1'') True) ''B'').
      \<not> conn_matches ''A'' (Some ''2'') e"
    by (simp add: rb conn_matches_def)
  show ?thesis
    using ra rb add_remove_roundtrip [OF h1 h2, of 7 "''A''"]
    by (simp add: conn_matches_def)
qed

section \<open>The concrete scenarios\<close>

text \<open>
  Claim C1. In the network A - B (line 1, duration 5), B - C (line 2, duration 5) with
  default wait 4, \<^verbatim>\<open>shortest_path(A, C)\<close> returns the time 10, and
  \<^verbatim>\<open>fastest_route_with_transfers(A, C)\<close> without a cap returns the time 14 and the path
  (A, none), (B, 1), (C, 2).
\<close>

theorem abc_scenario:
  "shortest_path abc_graph ''A'' ''C''
     = Some (Inr (Fin 10, [(''A'', None), (''B'', Some ''1''), (''C'', Some ''2'')])) \<and>
   fastest_route_with_transfers abc_graph ''A'' ''C'' None
     = Some (Inr (Fin 14, [(''A'', None), (''B'', Some ''1''), (''C'', Some ''2'')]))"
  by code_simp

section \<open>The route from a station to itself\<close>

lemma heappush_empty: "heappush lt [] x = Inr [x]"
  by (simp add: heappush_def siftdown_def siftdown_loop.simps)

lemma heappop_single: "heappop lt [x] = Inr (x, [])"
  by (simp add: heappop_def)

lemma tol_pos: "0 < tol"
  by (simp add: tol_def)

lemma shortest_path_self:
  assumes "adj g s \<noteq> None"
  shows "shortest_path g s s = Some (Inr (Fin 0, [(s, None)]))"
proof -
  have loop: "sp_loop g s ([(Fin 0, s, None, None)], [s \<mapsto> Fin 0], Map.empty)
      = Some (Inr ([], [s \<mapsto> Fin 0], [s \<mapsto> (None, None)]))"
    by (subst sp_loop.simps) (simp add: heappop_single)
  have walk: "sp_walk [s \<mapsto> (None, None)] (Some s) [] = Some (Inr [(s, None)])"
    by (subst sp_walk.simps, simp, subst sp_walk.simps, simp)
  show ?thesis
    using assms by (simp add: shortest_path_def heappush_empty loop walk)
qed

lemma fastest_route_self:
  assumes "adj g s \<noteq> None"
  shows "fastest_route_with_transfers g s s cap = Some (Inr (Fin 0, [(s, None)]))"
proof -
  have walk: "frt_walk Map.empty (s, None, 0) [] = Some []"
    by (subst frt_walk.simps) simp
  have loop: "frt_loop g s s cap ([(0, s, None, 0)], [(s, None, 0) \<mapsto> 0], Map.empty)
      = Some (Inr (Fin 0, [(s, None)]))"
    using tol_pos by (subst frt_loop.simps) (simp add: heappop_single walk)
  show ?thesis
    using assms by (simp add: fastest_route_with_transfers_def heappush_empty loop)
qed

text \<open>
  Claim C10. For every graph and every station \<open>s\<close> that exists in it, both
  \<^verbatim>\<open>shortest_path(s, s)\<close> and \<^verbatim>\<open>fastest_route_with_transfers(s, s)\<close> (with any cap or
  none) return the time 0.0 and the one-entry path (s, none): a success value with a
  non-empty path, not the no-path result.
\<close>

theorem route_to_self:
  assumes "adj g s \<noteq> None"
  shows "shortest_path g s s = Some (Inr (Fin 0, [(s, None)])) \<and>
         fastest_route_with_transfers g s s cap = Some (Inr (Fin 0, [(s, None)]))"
  using assms by (simp add: shortest_path_self fastest_route_self)

theorem route_to_self_witness:
  "adj abc_graph ''B'' \<noteq> None \<and>
   shortest_path abc_graph ''B'' ''B'' = Some (Inr (Fin 0, [(''B'', None)])) \<and>
   fastest_route_with_transfers abc_graph ''B'' ''B'' (Some 0)
     = Some (Inr (Fin 0, [(''B'', None)]))"
proof -
  have h: "adj abc_graph ''B'' \<noteq> None"
    by (simp add: abc_graph_def add_connection_def ensure_station_def add_station_def
        append_edge_def init_graph_def)
  show ?thesis
    using h route_to_self [OF h, of "Some 0"] by simp
qed

section \<open>Transfer penalties\<close>




section \<open>Comparisons of heap items that raise\<close>

text \<open>
  Claim C5 (evaluation at the failing input). Both A and B exist in the network with two
  parallel connections A - B of duration 5, one unlabeled and one on line 1, and
  \<^verbatim>\<open>fastest_route_with_transfers(A, B)\<close> raises \<^verbatim>\<open>TypeError\<close>: the second item pushed on
  the heap ties with the first on time and station, and the comparison goes on to
  \<^verbatim>\<open>None\<close> against a string. \<^verbatim>\<open>shortest_path(A, B)\<close> returns the time 5 on the same
  network.
\<close>

theorem parallel_edges_type_error:
  "adj par_graph ''A'' \<noteq> None \<and> adj par_graph ''B'' \<noteq> None \<and>
   fastest_route_with_transfers par_graph ''A'' ''B'' None = Some (Inl TypeError) \<and>
   shortest_path par_graph ''A'' ''B'' = Some (Inr (Fin 5, [(''A'', None), (''B'', None)]))"
  by code_simp

text \<open>
  Claim C4 (evaluation at the failing input). In the same network with a third station C
  that no connection reaches, no path from A to C exists, and
  \<^verbatim>\<open>fastest_route_with_transfers(A, C, 0)\<close> raises \<^verbatim>\<open>TypeError\<close> instead of returning the
  no-path result, while \<^verbatim>\<open>shortest_path(A, C)\<close> returns it. In the network A - B - C of the
  specification's scenario the cap 0 does give the no-path result.
\<close>

theorem unreachable_type_error:
  "adj par_c_graph ''A'' \<noteq> None \<and> adj par_c_graph ''C'' = Some [] \<and>
   shortest_path par_c_graph ''A'' ''C'' = Some (Inr (PInf, [])) \<and>
   fastest_route_with_transfers par_c_graph ''A'' ''C'' (Some 0) = Some (Inl TypeError) \<and>
   fastest_route_with_transfers abc_graph ''A'' ''C'' (Some 0) = Some (Inr (PInf, []))"
  by code_simp

text \<open>
  Claim C7 (evaluation at the failing input). With one-way connections A to B on line 1
  (1 minute) and B to C on line 2 (2 minutes) or unlabeled (6 minutes), the cap 0 gives
  the time 7, and the cap 1 makes the search push two items for C of time 7, one with a
  line and one without, whose comparison raises \<^verbatim>\<open>TypeError\<close>: no time is returned.
\<close>

theorem cap_raise_type_error:
  "fastest_route_with_transfers tie_graph ''A'' ''C'' (Some 0)
     = Some (Inr (Fin 7, [(''A'', None), (''B'', Some ''1''), (''C'', None)])) \<and>
   fastest_route_with_transfers tie_graph ''A'' ''C'' (Some 1) = Some (Inl TypeError)"
  by code_simp

section \<open>A search that never ends\<close>

lemma routes_loop_graph:
  "routes_from loop_graph ''A'' = [\<lparr>to_station = ''B'', time = 1, line = Some ''1''\<rparr>]"
  "routes_from loop_graph ''B'' = [\<lparr>to_station = ''A'', time = 1, line = Some ''2''\<rparr>]"
  by (simp_all add: loop_graph_def routes_from_def add_connection_def ensure_station_def add_station_def
        append_edge_def init_graph_def)

lemma wait_loop_graph: "wait_at loop_graph s = 4"
  by (simp add: loop_graph_def wait_at_def add_connection_def ensure_station_def add_station_def
        append_edge_def init_graph_def)

lemma adj_loop_graph: "adj loop_graph ''A'' \<noteq> None" "adj loop_graph ''C'' = Some []"
  by (simp_all add: loop_graph_def add_connection_def ensure_station_def add_station_def
        append_edge_def init_graph_def)

lemma cyc_step:
  assumes "cyc_inv (pq, best, parent)"
  shows "\<exists>item st1. heappop frt_lt pq = Inr (item, []) \<and>
      (case item of (t, cur, cl, n) \<Rightarrow> best (cur, cl, n) = Some t \<and> cur \<noteq> ''C'' \<and> 
         frt_relax loop_graph None item (routes_from loop_graph cur) ([], best, parent) = Inr st1)
       \<and> cyc_inv st1"
proof -
  from assms obtain t cur cl n where pq: "pq = [(t, cur, cl, n)]"
    and c: "(cur = ''A'' \<and> cl = Some ''2'') \<or> (cur = ''B'' \<and> cl = Some ''1'')"
    and b: "best (cur, cl, n) = Some t" and fresh: "\<forall>s l m. n < m \<longrightarrow> best (s, l, m) = None"
    by (auto simp: cyc_inv_def)
  from c show ?thesis
  proof
    assume "cur = ''A'' \<and> cl = Some ''2''"
    with pq b fresh show ?thesis
      by (simp add: heappop_single routes_loop_graph transfer_step_def wait_loop_graph
          heappush_empty Let_def cyc_inv_def)
  next
    assume "cur = ''B'' \<and> cl = Some ''1''"
    with pq b fresh show ?thesis
      by (simp add: heappop_single routes_loop_graph transfer_step_def wait_loop_graph
          heappush_empty Let_def cyc_inv_def)
  qed
qed

lemma cyc_diverges_aux:
  assumes "frt_loop g src dst cap st = Some y"
  shows "g = loop_graph \<and> src = ''A'' \<and> dst = ''C'' \<and> cap = None \<longrightarrow> \<not> cyc_inv st"
proof (rule frt_loop.raw_induct
    [where P = "\<lambda>g src dst cap st y.
       g = loop_graph \<and> src = ''A'' \<and> dst = ''C'' \<and> cap = None \<longrightarrow> \<not> cyc_inv st",
     OF _ assms], goal_cases)
  case (1 f g src dst cap st y)
  show ?case
  proof (intro impI notI)
    assume par: "g = loop_graph \<and> src = ''A'' \<and> dst = ''C'' \<and> cap = None" and inv: "cyc_inv st"
    obtain pq best parent where st: "st = (pq, best, parent)" by (cases st) auto
    from cyc_step inv st obtain item st1 where pop: "heappop frt_lt pq = Inr (item, [])"
      and rest: "case item of (t, cur, cl, n) \<Rightarrow> best (cur, cl, n) = Some t \<and> cur \<noteq> ''C'' \<and> 
         frt_relax loop_graph None item (routes_from loop_graph cur) ([], best, parent) = Inr st1"
      and inv1: "cyc_inv st1" by blast
    obtain t cur cl n where item: "item = (t, cur, cl, n)" by (cases item) auto
    from inv st have ne: "pq \<noteq> []" by (auto simp: cyc_inv_def)
    from 1(2) par st pop rest item ne tol_pos have "f loop_graph ''A'' ''C'' None st1 = Some y"
      by simp
    with 1(1) inv1 show False by blast
  qed
qed

text \<open>
  Claim C2 (evaluation at the failing input). In the network with the one-way cycle A to B
  on line 1 and B to A on line 2 (durations 1, wait 4) and a station C that no connection
  reaches, all three stations exist, and \<^verbatim>\<open>fastest_route_with_transfers(A, C)\<close> without a
  cap never returns: every turn of the loop pops the only item of the heap and pushes one
  item with one more transfer, whose key is new.
\<close>

theorem uncapped_search_diverges:
  "adj loop_graph ''A'' \<noteq> None \<and> adj loop_graph ''C'' = Some [] \<and>
   fastest_route_with_transfers loop_graph ''A'' ''C'' None = None"
proof -
  let ?st1 = "([(1, ''B'', Some ''1'', 0)], [(''A'', None, 0) \<mapsto> 0, (''B'', Some ''1'', 0) \<mapsto> 1],
      [(''B'', Some ''1'', 0::int) \<mapsto> ((''A'', None, 0::int), Some ''1'')]) :: frt_state"
  have first: "fastest_route_with_transfers loop_graph ''A'' ''C'' None = frt_loop loop_graph ''A'' ''C'' None ?st1"
    using tol_pos
    by (simp add: fastest_route_with_transfers_def adj_loop_graph heappush_empty)
       (subst frt_loop.simps, simp add: heappop_single routes_loop_graph transfer_step_def heappush_empty Let_def)
  have "cyc_inv ?st1" by (simp add: cyc_inv_def)
  with cyc_diverges_aux[of loop_graph "''A''" "''C''" None ?st1] have "frt_loop loop_graph ''A'' ''C'' None ?st1 = None"
    by (cases "frt_loop loop_graph ''A'' ''C'' None ?st1") auto
  with first show ?thesis by (simp add: adj_loop_graph)
qed

section \<open>Correctness of the heap\<close>

lemma parent_less: "0 < i \<Longrightarrow> parent_of i < i"
  unfolding parent_of_def by arith

lemma parent_fold: "(i - Suc 0) div 2 = parent_of i"
  by (simp add: parent_of_def)

lemma mset_move_hole:
  assumes "p < length h" "q < length h" "p \<noteq> q"
  shows "mset (h[p := h ! q, q := x]) = mset (h[p := x])"
proof -
  let ?l = "h[p := x]"
  have "mset (?l[q := ?l ! p, p := ?l ! q]) = mset ?l"
    using assms by (intro mset_swap) simp_all
  moreover have "?l[q := ?l ! p, p := ?l ! q] = h[p := h ! q, q := x]"
    using assms by (intro nth_equalityI) (auto simp: nth_list_update)
  ultimately show ?thesis by simp
qed

lemma bub_invI:
  assumes "pos < length h"
    and "\<And>i. 0 < i \<Longrightarrow> i < length h \<Longrightarrow> i \<noteq> pos \<Longrightarrow> parent_of i \<noteq> pos
          \<Longrightarrow> key (h ! parent_of i) \<le> key (h ! i)"
    and "\<And>i. 0 < i \<Longrightarrow> i < length h \<Longrightarrow> parent_of i = pos \<Longrightarrow> 0 < pos
          \<Longrightarrow> key (h ! parent_of pos) \<le> key (h ! i)"
  shows "bub_inv key h pos"
  unfolding bub_inv_def using assms by blast

lemma bub_invD:
  assumes "bub_inv key h pos"
  shows "pos < length h"
    and "\<And>i. 0 < i \<Longrightarrow> i < length h \<Longrightarrow> i \<noteq> pos \<Longrightarrow> parent_of i \<noteq> pos
          \<Longrightarrow> key (h ! parent_of i) \<le> key (h ! i)"
    and "\<And>i. 0 < i \<Longrightarrow> i < length h \<Longrightarrow> parent_of i = pos \<Longrightarrow> 0 < pos
          \<Longrightarrow> key (h ! parent_of pos) \<le> key (h ! i)"
  using assms unfolding bub_inv_def by blast+

lemma hole_inv_step:
  assumes inv: "hole_inv key h pos x" and pos: "0 < pos"
    and lt: "key x < key (h ! parent_of pos)"
  shows "hole_inv key (h[pos := h ! parent_of pos]) (parent_of pos) x"
proof -
  let ?p = "parent_of pos"
  let ?h = "h[pos := h ! ?p]"
  from inv have bub: "bub_inv key h pos" by (simp add: hole_inv_def)
  note len = bub_invD(1)[OF bub] and A = bub_invD(2)[OF bub] and C = bub_invD(3)[OF bub]
  from pos have pp: "?p < pos" by (rule parent_less)
  have sib: "key (h ! ?p) \<le> key (h ! i)"
    if "0 < i" "i < length h" "parent_of i = ?p" "i \<noteq> pos" for i
  proof -
    have "i \<noteq> ?p" using that parent_less[of i] by auto
    moreover have "parent_of i \<noteq> pos" using that pp by auto
    ultimately show ?thesis using A[of i] that by simp
  qed
  have "bub_inv key ?h ?p"
  proof (rule bub_invI)
    show "?p < length ?h" using len pp by simp
  next
    fix i assume i: "0 < i" "i < length ?h" "i \<noteq> ?p" "parent_of i \<noteq> ?p"
    then have ip: "i \<noteq> pos" by auto
    show "key (?h ! parent_of i) \<le> key (?h ! i)"
    proof (cases "parent_of i = pos")
      case True
      with i ip len C[of i] pos show ?thesis by simp
    next
      case False
      with i ip len A[of i] show ?thesis by simp
    qed
  next
    fix i assume i: "0 < i" "i < length ?h" "parent_of i = ?p" "0 < ?p"
    have q: "parent_of ?p < ?p" using i by (intro parent_less)
    with pp have qpos: "parent_of ?p \<noteq> pos" by arith
    have 1: "key (h ! parent_of ?p) \<le> key (h ! ?p)"
      using A[of ?p] i pp len q by simp
    show "key (?h ! parent_of ?p) \<le> key (?h ! i)"
    proof (cases "i = pos")
      case True
      with len qpos 1 show ?thesis by simp
    next
      case False
      with sib[of i] i have "key (h ! ?p) \<le> key (h ! i)" by simp
      with 1 False qpos show ?thesis by simp
    qed
  qed
  moreover have "key x \<le> key (?h ! i)" if "0 < i" "i < length ?h" "parent_of i = ?p" for i
  proof (cases "i = pos")
    case True
    with len lt show ?thesis by simp
  next
    case False
    with sib[of i] that have "key (h ! ?p) \<le> key (h ! i)" by simp
    with lt False show ?thesis by simp
  qed
  ultimately show ?thesis unfolding hole_inv_def by blast
qed

lemma hole_inv_done:
  assumes inv: "hole_inv key h pos x"
    and stop: "pos = 0 \<or> key (h ! parent_of pos) \<le> key x"
  shows "heap_inv key (h[pos := x])"
  unfolding heap_inv_def
proof (intro allI impI)
  fix i assume i: "0 < i \<and> i < length (h[pos := x])"
  from inv have bub: "bub_inv key h pos"
    and B: "\<And>i. 0 < i \<Longrightarrow> i < length h \<Longrightarrow> parent_of i = pos \<Longrightarrow> key x \<le> key (h ! i)"
    unfolding hole_inv_def by blast+
  note len = bub_invD(1)[OF bub] and A = bub_invD(2)[OF bub]
  show "key (h[pos := x] ! parent_of i) \<le> key (h[pos := x] ! i)"
  proof (cases "i = pos")
    case True
    with i stop len parent_less[of pos] show ?thesis by auto
  next
    case ip: False
    show ?thesis
    proof (cases "parent_of i = pos")
      case True
      with B[of i] i ip len show ?thesis by simp
    next
      case False
      with A[of i] i ip show ?thesis by simp
    qed
  qed
qed

lemma siftdown_loop_correct:
  assumes "hole_inv key h pos x" and "ord_on lt key A" and "set h \<subseteq> A" and "x \<in> A"
  shows "\<exists>h'. siftdown_loop lt h 0 pos x = Inr h' \<and> heap_inv key h' \<and> mset h' = mset (h[pos := x])"
  using assms
proof (induction pos arbitrary: h rule: less_induct)
  case (less pos)
  from less.prems(1) have len: "pos < length h" by (simp add: hole_inv_def bub_inv_def)
  show ?case
  proof (cases "0 < pos")
    case False
    with less.prems(1) hole_inv_done[of key h pos x] show ?thesis
      by (subst siftdown_loop.simps) simp
  next
    case True
    let ?p = "parent_of pos"
    from True have pp: "?p < pos" by (rule parent_less)
    with len have mem: "h ! ?p \<in> set h" by simp
    with less.prems have cmp: "lt x (h ! ?p) = Inr (key x < key (h ! ?p))"
      by (auto simp: ord_on_def)
    show ?thesis
    proof (cases "key x < key (h ! ?p)")
      case False
      with True cmp less.prems(1) hole_inv_done[of key h pos x] show ?thesis
        by (subst siftdown_loop.simps) (simp add: Let_def parent_fold)
    next
      case lt: True
      let ?h = "h[pos := h ! ?p]"
      have inv': "hole_inv key ?h ?p x"
        using hole_inv_step[OF less.prems(1) True lt] .
      have sub: "set ?h \<subseteq> A"
        using less.prems(3) mem set_update_subset_insert[of h pos "h ! ?p"] by auto
      from less.IH[OF pp inv' less.prems(2) sub less.prems(4)]
      obtain h' where h': "siftdown_loop lt ?h 0 ?p x = Inr h'" "heap_inv key h'"
        "mset h' = mset (?h[?p := x])" by blast
      have "mset (?h[?p := x]) = mset (h[pos := x])"
        using mset_move_hole[of pos h ?p x] len pp by simp
      with h' True cmp lt show ?thesis
        by (subst siftdown_loop.simps) (simp add: Let_def parent_fold)
    qed
  qed
qed

lemma parent_child_ge: "0 < i \<Longrightarrow> parent_of i = p \<Longrightarrow> 2 * p + 1 \<le> i \<and> i \<le> 2 * p + 2"
  unfolding parent_of_def by arith

lemma parent_of_children:
  "parent_of (2 * p + 1) = p" "parent_of (2 * p + 2) = p"
  "parent_of (Suc (2 * p)) = p" "parent_of (Suc (Suc (2 * p))) = p"
  unfolding parent_of_def by simp_all

lemma heap_inv_root_le:
  assumes "heap_inv key h" and "i < length h"
  shows "key (h ! 0) \<le> key (h ! i)"
  using assms(2)
proof (induction i rule: less_induct)
  case (less i)
  show ?case
  proof (cases "i = 0")
    case True
    then show ?thesis by simp
  next
    case False
    then have p: "parent_of i < i" by (simp add: parent_less)
    with less have "key (h ! 0) \<le> key (h ! parent_of i)" by simp
    moreover from assms(1) False less.prems have "key (h ! parent_of i) \<le> key (h ! i)"
      by (simp add: heap_inv_def)
    ultimately show ?thesis by simp
  qed
qed

lemma heappush_correct:
  assumes inv: "heap_inv key h" and ord: "ord_on lt key A" and sub: "set h \<subseteq> A" and x: "x \<in> A"
  shows "\<exists>h'. heappush lt h x = Inr h' \<and> heap_inv key h' \<and> mset h' = mset h + {#x#}"
proof -
  let ?h = "h @ [x]"
  have bub: "bub_inv key ?h (length h)"
  proof (rule bub_invI)
    show "length h < length ?h" by simp
  next
    fix i assume i: "0 < i" "i < length ?h" "i \<noteq> length h" "parent_of i \<noteq> length h"
    then have il: "i < length h" by simp
    with parent_less[of i] i have "parent_of i < length h" by simp
    with il inv i show "key (?h ! parent_of i) \<le> key (?h ! i)"
      by (simp add: nth_append heap_inv_def)
  next
    fix i assume i: "0 < i" "i < length ?h" "parent_of i = length h"
    with parent_less[of i] have False by simp
    then show "key (?h ! parent_of (length h)) \<le> key (?h ! i)" ..
  qed
  have hole: "hole_inv key ?h (length h) x"
    unfolding hole_inv_def
  proof (intro conjI allI impI bub)
    fix i assume i: "0 < i \<and> i < length ?h \<and> parent_of i = length h"
    with parent_less[of i] have False by simp
    then show "key x \<le> key (?h ! i)" ..
  qed
  have subA: "set ?h \<subseteq> A" using sub x by simp
  obtain h' where "siftdown_loop lt ?h 0 (length h) x = Inr h'" "heap_inv key h'"
    "mset h' = mset (?h[length h := x])"
    using siftdown_loop_correct[OF hole ord subA x] by blast
  then show ?thesis
    by (simp add: heappush_def siftdown_def)
qed

lemma bub_inv_step:
  assumes bub: "bub_inv key h pos" and c: "0 < c" "c < length h" "parent_of c = pos"
    and least: "\<And>i. 0 < i \<Longrightarrow> i < length h \<Longrightarrow> parent_of i = pos \<Longrightarrow> key (h ! c) \<le> key (h ! i)"
  shows "bub_inv key (h[pos := h ! c]) c"
proof -
  let ?h = "h[pos := h ! c]"
  note len = bub_invD(1)[OF bub] and A = bub_invD(2)[OF bub] and C = bub_invD(3)[OF bub]
  from c have pc: "pos < c" using parent_less[of c] by simp
  show ?thesis
  proof (rule bub_invI)
    show "c < length ?h" using c by simp
  next
    fix i assume i: "0 < i" "i < length ?h" "i \<noteq> c" "parent_of i \<noteq> c"
    show "key (?h ! parent_of i) \<le> key (?h ! i)"
    proof (cases "i = pos")
      case True
      with i parent_less[of pos] have "parent_of pos \<noteq> pos" by simp
      with True i C[of c] c len show ?thesis by simp
    next
      case ip: False
      show ?thesis
      proof (cases "parent_of i = pos")
        case True
        with i ip least[of i] len show ?thesis by simp
      next
        case False
        with i ip A[of i] show ?thesis by simp
      qed
    qed
  next
    fix i assume i: "0 < i" "i < length ?h" "parent_of i = c" "0 < c"
    then have ci: "c < i" using parent_less[of i] by simp
    with pc have ip: "i \<noteq> pos" "parent_of i \<noteq> pos" using i by auto
    with A[of i] i have "key (h ! c) \<le> key (h ! i)" by simp
    with ip c len show "key (?h ! parent_of c) \<le> key (?h ! i)" by simp
  qed
qed

lemma siftup_loop_correct:
  assumes "bub_inv key h pos" and "ord_on lt key A" and "set h \<subseteq> A"
  shows "\<exists>h' pos'. siftup_loop lt h (length h) pos = Inr (h', pos') \<and> bub_inv key h' pos' \<and>
           length h' = length h \<and> \<not> 2 * pos' + 1 < length h' \<and> set h' \<subseteq> A \<and>
           (\<forall>x. mset (h'[pos' := x]) = mset (h[pos := x]))"
  using assms
proof (induction "length h - pos" arbitrary: h pos rule: less_induct)
  case less
  note bub = less.prems(1)
  note len = bub_invD(1)[OF bub]
  show ?case
  proof (cases "2 * pos + 1 < length h")
    case False
    with bub less.prems(3) show ?thesis
      by (subst siftup_loop.simps) (simp add: Let_def)
  next
    case child: True
    define c where "c = (if 2 * pos + 2 < length h \<and> \<not> key (h ! (2 * pos + 1)) < key (h ! (2 * pos + 2))
        then 2 * pos + 2 else 2 * pos + 1)"
    have c: "0 < c" "c < length h" "parent_of c = pos"
      using child by (auto simp: c_def parent_of_children)
    have least: "key (h ! c) \<le> key (h ! i)" if "0 < i" "i < length h" "parent_of i = pos" for i
    proof -
      from parent_child_ge[OF that(1,3)] have "i = 2 * pos + 1 \<or> i = 2 * pos + 2" by arith
      with that show ?thesis by (auto simp: c_def)
    qed
    have cmp: "lt (h ! (2 * pos + 1)) (h ! (2 * pos + 2)) = Inr (key (h ! (2 * pos + 1)) < key (h ! (2 * pos + 2)))"
      if "2 * pos + 2 < length h"
    proof -
      from that have "h ! (2 * pos + 1) \<in> set h" "h ! (2 * pos + 2) \<in> set h" by simp_all
      with less.prems show ?thesis by (auto simp: ord_on_def)
    qed
    let ?h = "h[pos := h ! c]"
    have unfold: "siftup_loop lt h (length h) pos = siftup_loop lt ?h (length ?h) c"
      using child cmp by (subst siftup_loop.simps) (auto simp: Let_def c_def)
    have bub': "bub_inv key ?h c" using bub_inv_step[OF bub c least] .
    have "h ! c \<in> set h" using c(2) by simp
    then have sub: "set ?h \<subseteq> A"
      using less.prems(3) set_update_subset_insert[of h pos "h ! c"] by blast
    have "length ?h - c < length h - pos" using c parent_less[of c] by simp
    from less.hyps[OF this bub' less.prems(2) sub]
    obtain h' pos' where r: "siftup_loop lt ?h (length ?h) c = Inr (h', pos')" "bub_inv key h' pos'"
      "length h' = length ?h" "\<not> 2 * pos' + 1 < length h'" "set h' \<subseteq> A"
      "\<forall>x. mset (h'[pos' := x]) = mset (?h[c := x])" by blast
    have "mset (?h[c := x]) = mset (h[pos := x])" for x
      using mset_move_hole[of pos h c x] len c parent_less[of c] by simp
    with r unfold show ?thesis by simp
  qed
qed

lemma bub_inv_leaf_hole:
  assumes bub: "bub_inv key h pos" and leaf: "\<not> 2 * pos + 1 < length h"
  shows "hole_inv key (h[pos := x]) pos x"
proof -
  note len = bub_invD(1)[OF bub] and A = bub_invD(2)[OF bub]
  have nochild: "parent_of i \<noteq> pos" if "0 < i" "i < length h" for i
    using parent_child_ge[OF that(1), of pos] that leaf by auto
  have "bub_inv key (h[pos := x]) pos"
  proof (rule bub_invI)
    show "pos < length (h[pos := x])" using len by simp
  next
    fix i assume "0 < i" "i < length (h[pos := x])" "i \<noteq> pos" "parent_of i \<noteq> pos"
    with A[of i] show "key (h[pos := x] ! parent_of i) \<le> key (h[pos := x] ! i)" by simp
  next
    fix i assume "0 < i" "i < length (h[pos := x])" "parent_of i = pos"
    with nochild[of i] have False by simp
    then show "key (h[pos := x] ! parent_of pos) \<le> key (h[pos := x] ! i)" ..
  qed
  moreover have "key x \<le> key (h[pos := x] ! i)"
    if "0 < i \<and> i < length (h[pos := x]) \<and> parent_of i = pos" for i
    using nochild[of i] that by simp
  ultimately show ?thesis unfolding hole_inv_def by blast
qed

lemma siftup_correct:
  assumes bub: "bub_inv key h 0" and ord: "ord_on lt key A" and sub: "set h \<subseteq> A"
  shows "\<exists>h'. siftup lt h 0 = Inr h' \<and> heap_inv key h' \<and> mset h' = mset h"
proof -
  from siftup_loop_correct[OF bub ord sub]
  obtain h1 pos1 where r: "siftup_loop lt h (length h) 0 = Inr (h1, pos1)" "bub_inv key h1 pos1"
    "length h1 = length h" "\<not> 2 * pos1 + 1 < length h1" "set h1 \<subseteq> A"
    "\<forall>x. mset (h1[pos1 := x]) = mset (h[0 := x])" by blast
  let ?x = "h ! 0"
  from bub have "0 < length h" by (rule bub_invD(1))
  then have x: "?x \<in> A" using sub by auto
  have hole: "hole_inv key (h1[pos1 := ?x]) pos1 ?x"
    using bub_inv_leaf_hole[OF r(2,4)] .
  have sub1: "set (h1[pos1 := ?x]) \<subseteq> A"
    using r(5) x set_update_subset_insert[of h1 pos1 ?x] by auto
  from siftdown_loop_correct[OF hole ord sub1 x]
  obtain h' where h': "siftdown_loop lt (h1[pos1 := ?x]) 0 pos1 ?x = Inr h'" "heap_inv key h'"
    "mset h' = mset (h1[pos1 := ?x, pos1 := ?x])" by blast
  from r(2) have "pos1 < length h1" by (rule bub_invD(1))
  with h' r show ?thesis
    by (simp add: siftup_def Let_def siftdown_def)
qed

lemma heappop_correct:
  assumes inv: "heap_inv key h" and ne: "h \<noteq> []" and ord: "ord_on lt key A" and sub: "set h \<subseteq> A"
  shows "\<exists>x h'. heappop lt h = Inr (x, h') \<and> heap_inv key h' \<and> mset h = mset h' + {#x#} \<and>
           (\<forall>y \<in> set h. key x \<le> key y)"
proof -
  have least: "\<forall>y \<in> set h. key (h ! 0) \<le> key y"
    using heap_inv_root_le[OF inv] by (auto simp: in_set_conv_nth)
  show ?thesis
  proof (cases "butlast h = []")
    case True
    with ne have h: "h = [last h]" by (metis append_butlast_last_id append_Nil)
    then have "h ! 0 = last h" by (metis nth_Cons_0)
    with True ne least show ?thesis
      apply (simp add: heappop_def Let_def heap_inv_def)
      using h by (metis mset.simps(1) add_mset_add_single mset.simps(2) union_mset_add_mset_left empty_neutral(1))
  next
    case False
    let ?h1 = "butlast h"
    let ?h2 = "?h1[0 := last h]"
    have l1: "0 < length ?h1" using False length_greater_0_conv[of ?h1] by blast
    have nth1: "?h1 ! i = h ! i" if "i < length ?h1" for i
      using that by (simp add: nth_butlast)
    have bub: "bub_inv key ?h2 0"
    proof (rule bub_invI)
      show "0 < length ?h2" using l1 by simp
    next
      fix i assume i: "0 < i" "i < length ?h2" "i \<noteq> 0" "parent_of i \<noteq> 0"
      then have "parent_of i < length ?h1" using parent_less[of i] by simp
      with i nth1 inv show "key (?h2 ! parent_of i) \<le> key (?h2 ! i)"
        by (simp add: heap_inv_def)
    next
      fix i assume "0 < (0::nat)"
      then show "key (?h2 ! parent_of 0) \<le> key (?h2 ! i)" by simp
    qed
    have sub2: "set ?h2 \<subseteq> A"
    proof -
      have "set ?h1 \<subseteq> set h" by (auto dest: in_set_butlastD)
      moreover have "last h \<in> set h" using ne by simp
      ultimately show ?thesis
        using sub set_update_subset_insert[of ?h1 0 "last h"] by auto
    qed
    from siftup_correct[OF bub ord sub2]
    obtain h' where h': "siftup lt ?h2 0 = Inr h'" "heap_inv key h'" "mset h' = mset ?h2" by blast
    have "mset h = mset (?h1 @ [last h])" using ne by simp
    also have "\<dots> = mset ?h1 + {#last h#}" by simp
    also have "mset ?h1 + {#last h#} = mset ?h2 + {#?h1 ! 0#}"
      using l1 by (simp add: mset_update)
    finally have ms: "mset h = mset h' + {#?h1 ! 0#}" using h' by simp
    from l1 have "?h1 ! 0 = h ! 0" by (rule nth1)
    with h' ms least False ne show ?thesis
      by (simp add: heappop_def Let_def)
  qed
qed

section \<open>Rounding to doubles\<close>

lemma pyfloat_le_simps [simp]:
  "Fin a \<le> Fin b \<longleftrightarrow> a \<le> b" "Fin a \<le> PInf" "NInf \<le> x" "x \<le> PInf"
  "\<not> PInf \<le> Fin a" "\<not> Fin a \<le> NInf" "\<not> PInf \<le> NInf"
  by (simp_all add: less_eq_pyfloat_def split: pyfloat.splits)

lemma pyfloat_less_simps [simp]:
  "Fin a < Fin b \<longleftrightarrow> a < b" "Fin a < PInf" "NInf < Fin a" "NInf < PInf"
  "\<not> x < NInf" "\<not> PInf < x"
  by (auto simp: less_pyfloat_def less_eq_pyfloat_def split: pyfloat.splits)

lemma two53_eq: "two53 = 2 * two52"
  by (simp add: two52_def two53_def)

lemma two52_pos: "0 < two52"
  by (simp add: two52_def)

lemma grid_Suc: "grid (Suc j) = 2 * grid j"
  by (simp add: grid_def)

lemma grid_pos: "0 < grid j"
  by (simp add: grid_def)

lemma grid_mono: "i \<le> j \<Longrightarrow> grid i \<le> grid j"
  unfolding grid_def by (intro divide_right_mono power_increasing) simp_all

lemma grid_1022: "grid 1022 = 1 / two52"
  by (simp add: grid_def two52_def)

lemma grid_2045: "grid 2045 * two53 = two1024"
  by (simp add: grid_def two53_def two1024_def)

lemma grid_step:
  assumes "i < j"
  shows "grid i * two53 \<le> grid j * two52"
proof -
  from assms have "grid (Suc i) \<le> grid j" by (intro grid_mono) simp
  then have "grid (Suc i) * two52 \<le> grid j * two52"
    using two52_pos by (simp add: mult_right_mono)
  then show ?thesis by (simp add: grid_Suc two53_eq)
qed

lemma rne_of_int [simp]: "rne (of_int n) = n"
  by (simp add: rne_def)

lemma rne_ge: "\<lfloor>x\<rfloor> \<le> rne x"
  by (simp add: rne_def Let_def)

lemma rne_le: "rne x \<le> \<lfloor>x\<rfloor> + 1"
  by (simp add: rne_def Let_def)

lemma rne_mono:
  assumes "x \<le> y"
  shows "rne x \<le> rne y"
proof (cases "\<lfloor>x\<rfloor> < \<lfloor>y\<rfloor>")
  case True
  with rne_le[of x] rne_ge[of y] show ?thesis by linarith
next
  case False
  define f where "f = \<lfloor>y\<rfloor>"
  from False floor_mono[OF assms] have fx: "\<lfloor>x\<rfloor> = f" by (simp add: f_def)
  have rx: "rne x = (if x - of_int f < 1 / 2 then f else if 1 / 2 < x - of_int f then f + 1
      else if even f then f else f + 1)"
    by (simp add: rne_def Let_def fx)
  have ry: "rne y = (if y - of_int f < 1 / 2 then f else if 1 / 2 < y - of_int f then f + 1
      else if even f then f else f + 1)"
    by (simp add: rne_def Let_def f_def)
  consider "y - of_int f < 1 / 2" | "1 / 2 < y - of_int f" | "y - of_int f = 1 / 2"
    by linarith
  then show ?thesis
  proof cases
    case 1
    with assms have "x - of_int f < 1 / 2" by linarith
    with 1 rx ry show ?thesis by simp
  next
    case 2
    with ry have "rne y = f + 1" by simp
    with rx show ?thesis by simp
  next
    case 3
    with ry have y: "rne y = (if even f then f else f + 1)" by simp
    show ?thesis
    proof (cases "x - of_int f < 1 / 2")
      case True
      with rx y show ?thesis by simp
    next
      case False
      with 3 assms have "x - of_int f = 1 / 2" by linarith
      with rx y show ?thesis by simp
    qed
  qed
qed

lemma ulp_up_spec:
  assumes "u = grid j" and "u * two52 \<le> x"
  shows "\<exists>k. j \<le> k \<and> k \<le> j + n \<and> ulp_up n u x = grid k \<and>
           ulp_up n u x * two52 \<le> x \<and> (k = j + n \<or> x < ulp_up n u x * two53)"
  using assms
proof (induction n arbitrary: u j)
  case 0
  then show ?case by auto
next
  case (Suc n)
  show ?case
  proof (cases "x < u * two53")
    case True
    with Suc.prems show ?thesis by (intro exI[of _ j]) auto
  next
    case False
    have u2: "2 * u = grid (Suc j)" using Suc.prems(1) by (simp add: grid_Suc)
    have lo: "2 * u * two52 \<le> x" using False by (simp add: two53_eq)
    from Suc.IH[OF u2 lo] obtain k where k: "Suc j \<le> k" "k \<le> Suc j + n"
      "ulp_up n (2 * u) x = grid k" "ulp_up n (2 * u) x * two52 \<le> x"
      "k = Suc j + n \<or> x < ulp_up n (2 * u) x * two53" by blast
    have "ulp_up (Suc n) u x = ulp_up n (2 * u) x" using False by simp
    with k show ?thesis by (intro exI[of _ k]) auto
  qed
qed

lemma ulp_down_spec:
  assumes "u = grid j" and "x < u * two53" and "n \<le> j"
  shows "\<exists>k. j - n \<le> k \<and> k \<le> j \<and> ulp_down n u x = grid k \<and>
           x < ulp_down n u x * two53 \<and> (k = j - n \<or> ulp_down n u x * two52 \<le> x)"
  using assms
proof (induction n arbitrary: u j)
  case 0
  then show ?case by auto
next
  case (Suc n)
  show ?case
  proof (cases "u * two52 \<le> x")
    case True
    with Suc.prems show ?thesis by (intro exI[of _ j]) auto
  next
    case False
    from Suc.prems(3) obtain i where j: "j = Suc i" by (cases j) auto
    have u2: "u / 2 = grid i" using Suc.prems(1) j by (simp add: grid_Suc)
    have hi: "x < u / 2 * two53" using False by (simp add: two53_eq)
    have ni: "n \<le> i" using Suc.prems(3) j by simp
    from Suc.IH[OF u2 hi ni] obtain k where k: "i - n \<le> k" "k \<le> i"
      "ulp_down n (u / 2) x = grid k" "x < ulp_down n (u / 2) x * two53"
      "k = i - n \<or> ulp_down n (u / 2) x * two52 \<le> x" by blast
    have "ulp_down (Suc n) u x = ulp_down n (u / 2) x" using False by simp
    with k j show ?thesis by (intro exI[of _ k]) auto
  qed
qed

lemma binade_ulp: "binade (ulp x) x"
proof (cases "1 \<le> x")
  case True
  have lo: "1 / two52 * two52 \<le> x" using True two52_pos by simp
  from ulp_up_spec[where n = 1023 and j = 1022, OF grid_1022[symmetric] lo]
  obtain k where "1022 \<le> k" "k \<le> 1022 + 1023"
    "ulp_up 1023 (1 / two52) x = grid k" "ulp_up 1023 (1 / two52) x * two52 \<le> x"
    "k = 1022 + 1023 \<or> x < ulp_up 1023 (1 / two52) x * two53" by blast
  with True show ?thesis unfolding binade_def ulp_def by (intro exI[of _ k]) auto
next
  case False
  have hi: "x < 1 / two52 * two53" using False two52_pos by (simp add: two53_eq)
  have "(1022::nat) \<le> 1022" by simp
  from ulp_down_spec[where n = 1022 and j = 1022, OF grid_1022[symmetric] hi this]
  obtain k where "k \<le> 1022"
    "ulp_down 1022 (1 / two52) x = grid k" "x < ulp_down 1022 (1 / two52) x * two53"
    "k = 1022 - 1022 \<or> ulp_down 1022 (1 / two52) x * two52 \<le> x" by blast
  with False show ?thesis unfolding binade_def ulp_def by (intro exI[of _ k]) auto
qed

lemma binade_pos: "binade u x \<Longrightarrow> 0 < u"
  by (auto simp: binade_def grid_pos)

lemma binade_le:
  assumes "binade u x" and "binade v y" and "x \<le> y"
  shows "u \<le> v"
proof -
  from assms(1) obtain i where i: "i \<le> 2045" "u = grid i"
    "i = 0 \<or> u * two52 \<le> x" "i = 2045 \<or> x < u * two53" unfolding binade_def by blast
  from assms(2) obtain j where j: "j \<le> 2045" "v = grid j"
    "j = 0 \<or> v * two52 \<le> y" "j = 2045 \<or> y < v * two53" unfolding binade_def by blast
  have "i \<le> j"
  proof (rule ccontr)
    assume "\<not> i \<le> j"
    then have ji: "j < i" by simp
    with i j have "u * two52 \<le> x" "y < v * two53" by auto
    moreover have "v * two53 \<le> u * two52" using grid_step[OF ji] i j by simp
    ultimately show False using assms(3) by linarith
  qed
  with i j show ?thesis by (simp add: grid_mono)
qed

lemma binade_unique:
  assumes "binade u x" and "binade v x"
  shows "u = v"
  using binade_le[OF assms order_refl] binade_le[OF assms(2,1) order_refl] by simp

lemma binade_lower:
  assumes "binade u x" and "binade v y" and "u < v"
  shows "v * two52 \<le> y" and "x < u * two53" and "u * two53 \<le> v * two52"
proof -
  from assms(1) obtain i where i: "i \<le> 2045" "u = grid i"
    "i = 0 \<or> u * two52 \<le> x" "i = 2045 \<or> x < u * two53" unfolding binade_def by blast
  from assms(2) obtain j where j: "j \<le> 2045" "v = grid j"
    "j = 0 \<or> v * two52 \<le> y" "j = 2045 \<or> y < v * two53" unfolding binade_def by blast
  have ij: "i < j"
  proof (rule ccontr)
    assume "\<not> i < j"
    then have "j \<le> i" by simp
    with i j have "v \<le> u" by (simp add: grid_mono)
    with assms(3) show False by simp
  qed
  with i j show "v * two52 \<le> y" "x < u * two53" by auto
  from grid_step[OF ij] i j show "u * two53 \<le> v * two52" by simp
qed

lemma rne_numeral [simp]: "rne (numeral k) = numeral k" "rne 0 = 0"
  by (simp_all add: rne_def)

lemma ulp_pos: "0 < ulp x"
  using binade_pos[OF binade_ulp] .

lemma rnd_mag_nonneg:
  assumes "0 \<le> x"
  shows "0 \<le> rnd_mag x"
proof -
  have "0 \<le> x / ulp x" using assms ulp_pos[of x] by simp
  then have "(0::int) \<le> \<lfloor>x / ulp x\<rfloor>" by simp
  with rne_ge[of "x / ulp x"] have "0 \<le> rne (x / ulp x)" by linarith
  with ulp_pos[of x] show ?thesis by (simp add: rnd_mag_def)
qed

lemma two52_int: "two52 = of_int 4503599627370496" "two53 = of_int 9007199254740992"
  by (simp_all add: two52_def two53_def)

lemma rnd_mag_mono:
  assumes "0 \<le> x" and "x \<le> y"
  shows "rnd_mag x \<le> rnd_mag y"
proof -
  let ?u = "ulp x" and ?v = "ulp y"
  have uv: "?u \<le> ?v" using binade_le[OF binade_ulp binade_ulp assms(2)] .
  show ?thesis
  proof (cases "?u = ?v")
    case True
    have "x / ?u \<le> y / ?u" using assms(2) ulp_pos[of x] by (simp add: divide_right_mono)
    from rne_mono[OF this] have "of_int (rne (x / ?u)) \<le> (of_int (rne (y / ?u)) :: real)"
      by simp
    with ulp_pos[of x] True show ?thesis by (simp add: rnd_mag_def)
  next
    case False
    with uv have lt: "?u < ?v" by simp
    note b = binade_lower[OF binade_ulp binade_ulp lt]
    have "x / ?u \<le> two53" using b(2) ulp_pos[of x] by (simp add: pos_divide_le_eq mult.commute)
    from rne_mono[OF this] have "rne (x / ?u) \<le> 9007199254740992"
      by (simp add: two52_int)
    then have "(of_int (rne (x / ?u)) :: real) \<le> two53"
      unfolding two52_int by (simp only: of_int_le_iff)
    then have 1: "rnd_mag x \<le> ?u * two53"
      using ulp_pos[of x] by (simp add: rnd_mag_def)
    have "two52 \<le> y / ?v" using b(1) ulp_pos[of y] by (simp add: pos_le_divide_eq mult.commute)
    from rne_mono[OF this] have "4503599627370496 \<le> rne (y / ?v)"
      by (simp add: two52_int)
    then have "two52 \<le> (of_int (rne (y / ?v)) :: real)"
      unfolding two52_int by (simp only: of_int_le_iff)
    then have 2: "?v * two52 \<le> rnd_mag y"
      using ulp_pos[of y] by (simp add: rnd_mag_def)
    from 1 2 b(3) show ?thesis by linarith
  qed
qed

lemma rnd_mag_of_grid:
  assumes "binade u (u * of_int n)"
  shows "rnd_mag (u * of_int n) = u * of_int n"
proof -
  have "ulp (u * of_int n) = u" using binade_unique[OF binade_ulp assms] .
  moreover have "u * of_int n / u = of_int n" using binade_pos[OF assms] by simp
  ultimately show ?thesis by (simp add: rnd_mag_def)
qed

lemma rnd_mag_idem:
  assumes "0 \<le> x" and "rnd_mag x < two1024"
  shows "rnd_mag (rnd_mag x) = rnd_mag x"
proof -
  let ?u = "ulp x"
  define n where "n = rne (x / ?u)"
  have m: "rnd_mag x = ?u * of_int n" by (simp add: rnd_mag_def n_def)
  have up: "0 < ?u" by (rule ulp_pos)
  from binade_ulp[of x] obtain j where j: "j \<le> 2045" "?u = grid j"
    "j = 0 \<or> ?u * two52 \<le> x" "j = 2045 \<or> x < ?u * two53" unfolding binade_def by blast
  have lo: "two52 \<le> of_int n" if "j \<noteq> 0"
  proof -
    from that j have "two52 \<le> x / ?u" using up by (simp add: pos_le_divide_eq mult.commute)
    from rne_mono[OF this] have "4503599627370496 \<le> n" by (simp add: two52_int n_def)
    then show ?thesis unfolding two52_int by (simp only: of_int_le_iff)
  qed
  have hi: "of_int n \<le> two53" if "j \<noteq> 2045"
  proof -
    from that j have "x / ?u \<le> two53" using up by (simp add: pos_divide_le_eq mult.commute)
    from rne_mono[OF this] have "n \<le> 9007199254740992" by (simp add: two52_int n_def)
    then show ?thesis unfolding two52_int by (simp only: of_int_le_iff)
  qed
  have top: "of_int n < two53" if "j = 2045"
  proof -
    from that j grid_2045 have "?u * two53 = two1024" by simp
    with assms(2) m have "?u * of_int n < ?u * two53" by simp
    with up show ?thesis by simp
  qed
  show ?thesis
  proof (cases "of_int n < two53")
    case True
    have "binade ?u (?u * of_int n)"
      unfolding binade_def
    proof (intro exI[of _ j] conjI)
      show "j = 0 \<or> ?u * two52 \<le> ?u * of_int n"
        using lo up by (cases "j = 0") simp_all
      show "j = 2045 \<or> ?u * of_int n < ?u * two53"
        using True up by simp
    qed (use j in simp_all)
    from rnd_mag_of_grid[OF this] m show ?thesis by simp
  next
    case False
    with top have j45: "j \<noteq> 2045" by auto
    with hi False have n: "of_int n = two53" by simp
    have v: "2 * ?u = grid (Suc j)" using j by (simp add: grid_Suc)
    have "binade (2 * ?u) (2 * ?u * of_int 4503599627370496)"
      unfolding binade_def
    proof (intro exI[of _ "Suc j"] conjI)
      show "Suc j \<le> 2045" using j j45 by simp
      show "2 * ?u = grid (Suc j)" by (rule v)
      show "Suc j = 0 \<or> 2 * ?u * two52 \<le> 2 * ?u * of_int 4503599627370496"
        by (simp add: two52_def)
      show "Suc j = 2045 \<or> 2 * ?u * of_int 4503599627370496 < 2 * ?u * two53"
        using up by (simp add: two53_def)
    qed
    from rnd_mag_of_grid[OF this]
    have "rnd_mag (2 * ?u * of_int 4503599627370496) = 2 * ?u * of_int 4503599627370496" .
    moreover have "rnd_mag x = 2 * ?u * of_int 4503599627370496"
      using m n by (simp add: two53_def)
    ultimately show ?thesis by simp
  qed
qed

lemma rnd_mag_0 [simp]: "rnd_mag 0 = 0"
  by (simp add: rnd_mag_def)

lemma rnd_mono:
  assumes "x \<le> y"
  shows "rnd x \<le> rnd y"
proof (cases "0 \<le> x")
  case True
  with assms have y: "0 \<le> y" by simp
  from rnd_mag_mono[OF True assms] True y show ?thesis
    by (auto simp: rnd_def Let_def)
next
  case xn: False
  show ?thesis
  proof (cases "0 \<le> y")
    case True
    from rnd_mag_nonneg[of "\<bar>x\<bar>"] rnd_mag_nonneg[of "\<bar>y\<bar>"] xn True show ?thesis
      by (auto simp: rnd_def Let_def)
  next
    case False
    with assms have "0 \<le> \<bar>y\<bar>" "\<bar>y\<bar> \<le> \<bar>x\<bar>" by simp_all
    from rnd_mag_mono[OF this] xn False show ?thesis
      by (auto simp: rnd_def Let_def)
  qed
qed

lemma rnd_idem:
  assumes "rnd x = Fin a"
  shows "rnd a = Fin a"
proof -
  from assms have small: "rnd_mag \<bar>x\<bar> < two1024"
    by (auto simp: rnd_def Let_def split: if_splits)
  have idem: "rnd_mag (rnd_mag \<bar>x\<bar>) = rnd_mag \<bar>x\<bar>"
    using rnd_mag_idem[OF _ small] by simp
  have nn: "0 \<le> rnd_mag \<bar>x\<bar>" using rnd_mag_nonneg[of "\<bar>x\<bar>"] by simp
  show ?thesis
  proof (cases "0 \<le> x")
    case True
    with assms small have "a = rnd_mag \<bar>x\<bar>" by (simp add: rnd_def Let_def)
    with idem small nn show ?thesis by (simp add: rnd_def Let_def)
  next
    case False
    with assms small have a: "a = - rnd_mag \<bar>x\<bar>" by (simp add: rnd_def Let_def)
    show ?thesis
    proof (cases "rnd_mag \<bar>x\<bar> = 0")
      case True
      with a show ?thesis by (simp add: rnd_def Let_def two1024_def)
    next
      case False
      with nn a have "\<not> 0 \<le> a" "\<bar>a\<bar> = rnd_mag \<bar>x\<bar>" by simp_all
      with idem small a show ?thesis by (simp add: rnd_def Let_def)
    qed
  qed
qed

lemma is_dbl_rnd: "is_dbl (rnd x)"
  by (cases "rnd x") (simp_all add: is_dbl_def rnd_idem)

lemma is_dbl_fadd: "is_dbl (fadd x w)"
  by (cases x) (simp_all add: fadd_def is_dbl_rnd, simp_all add: is_dbl_def)

lemma is_dbl_0: "is_dbl (Fin 0)"
  by (simp add: is_dbl_def rnd_def Let_def two1024_def)

lemma fadd_mono:
  assumes "x \<le> y"
  shows "fadd x w \<le> fadd y w"
proof (cases x)
  case (Fin a)
  show ?thesis
  proof (cases y)
    case (Fin b)
    with \<open>x = Fin a\<close> assms have "a + w \<le> b + w" by simp
    from rnd_mono[OF this] Fin \<open>x = Fin a\<close> show ?thesis by (simp add: fadd_def)
  next
    case PInf
    then show ?thesis by (simp add: fadd_def)
  next
    case NInf
    with Fin assms show ?thesis by simp
  qed
next
  case PInf
  with assms have "y = PInf" by (cases y) simp_all
  with PInf show ?thesis by simp
next
  case NInf
  then show ?thesis by (simp add: fadd_def)
qed

lemma fadd_ge:
  assumes "is_dbl x" and "0 \<le> w"
  shows "x \<le> fadd x w"
proof (cases x)
  case (Fin a)
  with assms(1) have "rnd a = Fin a" by (simp add: is_dbl_def)
  moreover have "rnd a \<le> rnd (a + w)" using assms(2) by (intro rnd_mono) simp
  ultimately show ?thesis using Fin by (simp add: fadd_def)
qed (simp_all add: fadd_def)

section \<open>Optimality of \<^verbatim>\<open>shortest_path\<close>\<close>

lemma sp_acc [simp]:
  "sp_time (t, s, p, l) = t" "sp_station (t, s, p, l) = s" "sp_pred (t, s, p, l) = p"
  "sp_key (t, s, p, l) = (t, s)"
  by (simp_all add: sp_time_def sp_station_def sp_pred_def sp_key_def)

lemma sp_key_le_time: "sp_key x \<le> sp_key y \<Longrightarrow> sp_time x \<le> sp_time y"
  by (auto simp: sp_key_def less_eq_prod_def)

lemma sp_lt_ord:
  assumes "inj_on sp_key A"
  shows "ord_on sp_lt sp_key A"
  unfolding ord_on_def
proof (intro ballI)
  fix a b assume ab: "a \<in> A" "b \<in> A"
  obtain t1 s1 p1 l1 where a: "a = (t1, s1, p1, l1)" by (cases a) auto
  obtain t2 s2 p2 l2 where b: "b = (t2, s2, p2, l2)" by (cases b) auto
  show "sp_lt a b = Inr (sp_key a < sp_key b)"
  proof (cases "t1 = t2 \<and> s1 = s2")
    case True
    with a b have "sp_key a = sp_key b" by simp
    with assms ab have "a = b" by (auto dest: inj_onD)
    with a b show ?thesis by (simp add: sp_lt_def)
  next
    case False
    with a b show ?thesis by (auto simp: sp_lt_def less_prod_def)
  qed
qed

lemma sp_push:
  assumes ok: "sp_heap_ok pq" and fresh: "\<forall>y \<in> set pq. sp_key y \<noteq> sp_key x"
    and dbl: "is_dbl (sp_time x)"
  shows "\<exists>pq1. heappush sp_lt pq x = Inr pq1 \<and> sp_heap_ok pq1 \<and> set pq1 = insert x (set pq) \<and>
           length pq1 = Suc (length pq)"
proof -
  let ?A = "insert x (set pq)"
  from ok fresh have inj: "inj_on sp_key ?A" by (auto simp: sp_heap_ok_def)
  from ok have "heap_inv sp_key pq" by (simp add: sp_heap_ok_def)
  from heappush_correct[OF this sp_lt_ord[OF inj], of x]
  obtain pq1 where r: "heappush sp_lt pq x = Inr pq1" "heap_inv sp_key pq1"
    "mset pq1 = mset pq + {#x#}" by auto
  from r(3) have "mset pq1 = mset (x # pq)" by simp
  then have s: "set pq1 = ?A" and l: "length pq1 = Suc (length pq)"
    using mset_eq_setD[of pq1 "x # pq"] mset_eq_length[of pq1 "x # pq"] by simp_all
  with r inj ok dbl show ?thesis by (simp add: sp_heap_ok_def)
qed

lemma sp_pop:
  assumes ok: "sp_heap_ok pq" and ne: "pq \<noteq> []"
  shows "\<exists>x pq1. heappop sp_lt pq = Inr (x, pq1) \<and> sp_heap_ok pq1 \<and> set pq = insert x (set pq1) \<and>
           Suc (length pq1) = length pq \<and> (\<forall>y \<in> set pq. sp_time x \<le> sp_time y)"
proof -
  from ok have h: "heap_inv sp_key pq" and inj: "inj_on sp_key (set pq)"
    and dbl: "\<forall>x \<in> set pq. is_dbl (sp_time x)"
    by (simp_all add: sp_heap_ok_def)
  from heappop_correct[OF h ne sp_lt_ord[OF inj]]
  obtain x pq1 where r: "heappop sp_lt pq = Inr (x, pq1)" "heap_inv sp_key pq1"
    "mset pq = mset pq1 + {#x#}" "\<forall>y \<in> set pq. sp_key x \<le> sp_key y" by auto
  from r(3) have "mset pq = mset (x # pq1)" by simp
  then have s: "set pq = insert x (set pq1)" and l: "length pq = Suc (length pq1)"
    using mset_eq_setD[of pq "x # pq1"] mset_eq_length[of pq "x # pq1"] by simp_all
  from s inj have "inj_on sp_key (set pq1)" by (auto intro: inj_on_subset)
  with r s l dbl show ?thesis
    by (auto simp: sp_heap_ok_def intro: sp_key_le_time)
qed

lemma sp_heap_ok_dbl: "sp_heap_ok pq \<Longrightarrow> x \<in> set pq \<Longrightarrow> is_dbl (sp_time x)"
  by (simp add: sp_heap_ok_def)

lemma float_sum_from_simps [simp]:
  "float_sum_from x [] = x" "float_sum_from x (e # es) = float_sum_from (fadd x (time e)) es"
  by (simp_all add: float_sum_from_def)

lemma float_sum_from_mono:
  "x \<le> y \<Longrightarrow> float_sum_from x p \<le> float_sum_from y p"
  by (induction p arbitrary: x y) (simp_all add: fadd_mono)

lemma float_sum_from_ge:
  assumes "\<forall>e \<in> set p. 0 \<le> time e"
  shows "is_dbl x \<Longrightarrow> x \<le> float_sum_from x p"
  using assms
proof (induction p arbitrary: x)
  case Nil
  then show ?case by simp
next
  case (Cons e es)
  then have "x \<le> fadd x (time e)" by (simp add: fadd_ge)
  also have "fadd x (time e) \<le> float_sum_from (fadd x (time e)) es"
    using Cons by (simp add: is_dbl_fadd)
  finally show ?case by simp
qed

lemma relaxed_snoc_keep:
  assumes rel: "relaxed (\<lambda>u. if u = cur then set seen else set (routes_from g u)) distm prev1"
    and cur: "distm cur = Some t" and tgt: "distm (to_station e) = Some d" "d \<le> fadd t (time e)"
  shows "relaxed (\<lambda>u. if u = cur then set (seen @ [e]) else set (routes_from g u)) distm prev1"
  unfolding relaxed_def
proof (intro allI impI)
  fix u du e'
  assume a: "prev1 u \<noteq> None \<and> distm u = Some du \<and>
    e' \<in> (if u = cur then set (seen @ [e]) else set (routes_from g u))"
  show "\<exists>d. distm (to_station e') = Some d \<and> d \<le> fadd du (time e')"
  proof (cases "u = cur \<and> e' = e")
    case True
    with a cur tgt show ?thesis by simp
  next
    case False
    with a have "e' \<in> (if u = cur then set seen else set (routes_from g u))"
      by (auto split: if_splits)
    with a rel show ?thesis unfolding relaxed_def by blast
  qed
qed

lemma sp_mid_skip:
  assumes M: "sp_mid g src cur t prev1 seen pq distm"
    and no: "\<not> (case distm (to_station e) of None \<Rightarrow> True | Some d \<Rightarrow> fadd t (time e) < d)"
  shows "sp_mid g src cur t prev1 (seen @ [e]) pq distm"
proof -
  from no obtain d where d: "distm (to_station e) = Some d" "d \<le> fadd t (time e)"
    by (cases "distm (to_station e)") (auto simp: not_less)
  from M have "relaxed (\<lambda>u. if u = cur then set seen else set (routes_from g u)) distm prev1"
    and "distm cur = Some t" by (simp_all add: sp_mid_def)
  from relaxed_snoc_keep[OF this d]
  show ?thesis using M by (simp add: sp_mid_def)
qed

lemma sp_mid_push:
  assumes M: "sp_mid g src cur t prev1 seen pq distm" and nn: "0 \<le> time e"
    and yes: "case distm (to_station e) of None \<Rightarrow> True | Some d \<Rightarrow> fadd t (time e) < d"
  shows "\<exists>pq1. heappush sp_lt pq (fadd t (time e), to_station e, Some cur, line e) = Inr pq1 \<and>
           length pq1 = Suc (length pq) \<and>
           sp_mid g src cur t prev1 (seen @ [e]) pq1 (distm(to_station e \<mapsto> fadd t (time e)))"
proof -
  let ?nxt = "to_station e" and ?nt = "fadd t (time e)"
  let ?x = "(?nt, ?nxt, Some cur, line e)"
  let ?distm = "distm(?nxt \<mapsto> ?nt)"
  from M have ok: "sp_heap_ok pq" and src: "distm src = Some (Fin 0)" and t0: "Fin 0 \<le> t"
    and tdbl: "is_dbl t"
    and ge: "\<forall>x \<in> set pq. t \<le> sp_time x" and dle: "dist_le_pq distm pq"
    and opn: "open_in_pq distm prev1 pq"
    and fin: "\<forall>u du. prev1 u \<noteq> None \<and> distm u = Some du \<longrightarrow> du \<le> t"
    and rel: "relaxed (\<lambda>u. if u = cur then set seen else set (routes_from g u)) distm prev1"
    and cl: "closed_dist distm prev1" and pc: "preds_closed prev1 pq"
    and cur: "distm cur = Some t" and pcur: "prev1 cur \<noteq> None"
    by (simp_all add: sp_mid_def)
  have up: "t \<le> ?nt" using fadd_ge[OF tdbl nn] .
  have lower: "?nt < d" if "distm ?nxt = Some d" for d
    using yes that by simp
  have notfin: "prev1 ?nxt = None"
  proof (rule ccontr)
    assume f: "prev1 ?nxt \<noteq> None"
    with cl obtain d where d: "distm ?nxt = Some d" by (auto simp: closed_dist_def)
    with fin f have "d \<le> t" by blast
    with up have "d \<le> ?nt" by (meson order_trans)
    with lower[OF d] show False by simp
  qed
  have nsrc: "?nxt \<noteq> src"
  proof
    assume "?nxt = src"
    with src lower[of "Fin 0"] have "?nt < Fin 0" by simp
    moreover from t0 up have "Fin 0 \<le> ?nt" by (meson order_trans)
    ultimately show False by simp
  qed
  from notfin pcur have ncur: "?nxt \<noteq> cur" by auto
  have fresh: "\<forall>y \<in> set pq. sp_key y \<noteq> sp_key ?x"
  proof
    fix y assume y: "y \<in> set pq"
    show "sp_key y \<noteq> sp_key ?x"
    proof
      assume eq: "sp_key y = sp_key ?x"
      then have st: "sp_station y = ?nxt" "sp_time y = ?nt" by (simp_all add: sp_key_def)
      from dle y obtain d where "distm (sp_station y) = Some d" "d \<le> sp_time y"
        by (auto simp: dist_le_pq_def)
      with st lower[of d] show False by simp
    qed
  qed
  have xdbl: "is_dbl (sp_time ?x)" by (simp add: is_dbl_fadd)
  from sp_push[OF ok fresh xdbl] obtain pq1 where
    push: "heappush sp_lt pq ?x = Inr pq1" and ok1: "sp_heap_ok pq1"
    and set1: "set pq1 = insert ?x (set pq)" and len1: "length pq1 = Suc (length pq)" by blast
  have ge1: "\<forall>x \<in> set pq1. t \<le> sp_time x"
    using ge up set1 by auto
  have dle1: "dist_le_pq ?distm pq1"
    unfolding dist_le_pq_def
  proof
    fix y assume "y \<in> set pq1"
    with set1 have "y = ?x \<or> y \<in> set pq" by auto
    then show "\<exists>d. ?distm (sp_station y) = Some d \<and> d \<le> sp_time y"
    proof
      assume "y = ?x" then show ?thesis by simp
    next
      assume y: "y \<in> set pq"
      with dle obtain d where d: "distm (sp_station y) = Some d" "d \<le> sp_time y"
        by (auto simp: dist_le_pq_def)
      show ?thesis
      proof (cases "sp_station y = ?nxt")
        case True
        with d lower[of d] have "?nt \<le> sp_time y" by simp
        with True show ?thesis by simp
      next
        case False
        with d show ?thesis by simp
      qed
    qed
  qed
  have opn1: "open_in_pq ?distm prev1 pq1"
    unfolding open_in_pq_def
  proof (intro allI impI)
    fix s d assume a: "?distm s = Some d \<and> prev1 s = None"
    show "\<exists>p l. (d, s, p, l) \<in> set pq1"
    proof (cases "s = ?nxt")
      case True
      with a set1 show ?thesis by auto
    next
      case False
      with a opn have "\<exists>p l. (d, s, p, l) \<in> set pq" by (simp add: open_in_pq_def)
      with set1 show ?thesis by auto
    qed
  qed
  have fin1: "\<forall>u du. prev1 u \<noteq> None \<and> ?distm u = Some du \<longrightarrow> du \<le> t"
    using fin notfin by auto
  have rel1: "relaxed (\<lambda>u. if u = cur then set (seen @ [e]) else set (routes_from g u)) ?distm prev1"
    unfolding relaxed_def
  proof (intro allI impI)
    fix u du e'
    assume a: "prev1 u \<noteq> None \<and> ?distm u = Some du \<and>
      e' \<in> (if u = cur then set (seen @ [e]) else set (routes_from g u))"
    with notfin have un: "u \<noteq> ?nxt" by auto
    with a have du: "distm u = Some du" by simp
    show "\<exists>d. ?distm (to_station e') = Some d \<and> d \<le> fadd du (time e')"
    proof (cases "u = cur \<and> e' = e")
      case True
      with du cur show ?thesis by simp
    next
      case False
      with a have "e' \<in> (if u = cur then set seen else set (routes_from g u))"
        by (auto split: if_splits)
      with a du rel obtain d where d: "distm (to_station e') = Some d" "d \<le> fadd du (time e')"
        unfolding relaxed_def by blast
      show ?thesis
      proof (cases "to_station e' = ?nxt")
        case True
        with d lower[of d] have "?nt \<le> fadd du (time e')" by simp
        with True show ?thesis by simp
      next
        case False
        with d show ?thesis by simp
      qed
    qed
  qed
  have cl1: "closed_dist ?distm prev1"
    using cl by (simp add: closed_dist_def)
  have pc1: "preds_closed prev1 pq1"
    using pc pcur set1 by (auto simp: preds_closed_def)
  from ok1 src nsrc t0 tdbl ge1 dle1 opn1 fin1 rel1 cl1 pc1 cur ncur pcur
  have "sp_mid g src cur t prev1 (seen @ [e]) pq1 ?distm"
    unfolding sp_mid_def by (simp add: fun_upd_apply)
  with push len1 show ?thesis by blast
qed

lemma sp_relax_correct:
  assumes "sp_mid g src cur t prev1 seen pq distm" and "\<forall>e \<in> set es. 0 \<le> time e"
  shows "\<exists>distm1 pq1. sp_relax cur t es distm pq = Inr (distm1, pq1) \<and>
           length pq1 \<le> length pq + length es \<and>
           sp_mid g src cur t prev1 (seen @ es) pq1 distm1"
  using assms
proof (induction es arbitrary: seen pq distm)
  case Nil
  then show ?case by simp
next
  case (Cons e es)
  from Cons.prems(2) have nn: "0 \<le> time e" and rest: "\<forall>e \<in> set es. 0 \<le> time e" by simp_all
  show ?case
  proof (cases "case distm (to_station e) of None \<Rightarrow> True | Some d \<Rightarrow> fadd t (time e) < d")
    case True
    from sp_mid_push[OF Cons.prems(1) nn True] obtain pq1 where
      p: "heappush sp_lt pq (fadd t (time e), to_station e, Some cur, line e) = Inr pq1"
      "length pq1 = Suc (length pq)"
      "sp_mid g src cur t prev1 (seen @ [e]) pq1 (distm(to_station e \<mapsto> fadd t (time e)))" by blast
    from Cons.IH[OF p(3) rest] obtain distm2 pq2 where
      r: "sp_relax cur t es (distm(to_station e \<mapsto> fadd t (time e))) pq1 = Inr (distm2, pq2)"
      "length pq2 \<le> length pq1 + length es"
      "sp_mid g src cur t prev1 ((seen @ [e]) @ es) pq2 distm2" by blast
    with True p show ?thesis by (simp add: Let_def)
  next
    case False
    from Cons.IH[OF sp_mid_skip[OF Cons.prems(1) False] rest] obtain distm2 pq2 where
      r: "sp_relax cur t es distm pq = Inr (distm2, pq2)"
      "length pq2 \<le> length pq + length es"
      "sp_mid g src cur t prev1 ((seen @ [e]) @ es) pq2 distm2" by blast
    with False show ?thesis by (simp add: Let_def)
  qed
qed

lemma routes_nonneg:
  assumes "nonneg_durations g" and "e \<in> set (routes_from g s)"
  shows "0 \<le> time e"
  using assms unfolding nonneg_durations_def routes_from_def
  by (cases "adj g s") auto

lemma open_in_pqD:
  assumes "open_in_pq distm prev pq" and "distm s = Some d" and "prev s = None"
  shows "\<exists>p l. (d, s, p, l) \<in> set pq"
  using assms unfolding open_in_pq_def by blast

lemma path_edges_nonneg:
  assumes "nonneg_durations g"
  shows "is_path g a p b \<Longrightarrow> \<forall>e \<in> set p. 0 \<le> time e"
proof (induction p arbitrary: a)
  case Nil
  then show ?case by simp
next
  case (Cons e es)
  then show ?case using routes_nonneg[OF assms] by auto
qed

lemma path_bound:
  assumes nn: "nonneg_durations g"
    and rel: "relaxed (\<lambda>u. set (routes_from g u)) distm prev"
    and opn: "open_in_pq distm prev pq"
    and ok: "sp_heap_ok pq"
    and least: "\<forall>y \<in> set pq. t \<le> sp_time y"
    and cur: "prev cur = None"
  shows "distm a = Some da \<Longrightarrow> is_path g a p cur \<Longrightarrow> t \<le> float_sum_from da p"
proof (induction p arbitrary: a da)
  case Nil
  then have "distm cur = Some da" by simp
  from open_in_pqD[OF opn this cur] obtain q l where "(da, cur, q, l) \<in> set pq" by blast
  with least show ?case by force
next
  case (Cons e es)
  from Cons.prems have e: "e \<in> set (routes_from g a)" and rest: "is_path g (to_station e) es cur"
    by simp_all
  show ?case
  proof (cases "prev a = None")
    case True
    from open_in_pqD[OF opn Cons.prems(1) True] obtain q l where m: "(da, a, q, l) \<in> set pq"
      by blast
    with least have "t \<le> da" by force
    moreover have "is_dbl da" using sp_heap_ok_dbl[OF ok m] by simp
    then have "da \<le> float_sum_from da (e # es)"
      using float_sum_from_ge[OF path_edges_nonneg[OF nn Cons.prems(2)]] by blast
    ultimately show ?thesis by (meson order_trans)
  next
    case False
    with rel Cons.prems(1) e obtain d where d: "distm (to_station e) = Some d"
      "d \<le> fadd da (time e)"
      unfolding relaxed_def by blast
    from Cons.IH[OF d(1) rest] have "t \<le> float_sum_from d es" .
    also have "float_sum_from d es \<le> float_sum_from (fadd da (time e)) es"
      using d(2) by (rule float_sum_from_mono)
    finally show ?thesis by simp
  qed
qed

lemma no_path_when_empty:
  assumes rel: "relaxed (\<lambda>u. set (routes_from g u)) distm prev"
    and opn: "open_in_pq distm prev []"
  shows "distm a \<noteq> None \<Longrightarrow> is_path g a p b \<Longrightarrow> prev b \<noteq> None"
proof (induction p arbitrary: a)
  case Nil
  then obtain d where "distm b = Some d" by auto
  with open_in_pqD[OF opn this] show ?case by (cases "prev b") auto
next
  case (Cons e es)
  from Cons.prems(1) obtain da where da: "distm a = Some da" by auto
  with open_in_pqD[OF opn this] have fa: "prev a \<noteq> None" by (cases "prev a") auto
  from Cons.prems have e: "e \<in> set (routes_from g a)" and rest: "is_path g (to_station e) es b"
    by simp_all
  from da rel fa e have "distm (to_station e) \<noteq> None" unfolding relaxed_def by blast
  from Cons.IH[OF this rest] show ?case .
qed

lemma ranked_extend:
  assumes r: "ranked prev" and cur: "prev cur = None"
    and p: "\<And>q. p = Some q \<Longrightarrow> prev q \<noteq> None"
  shows "ranked (prev(cur \<mapsto> (p, l)))"
proof -
  from r obtain rank :: "string \<Rightarrow> nat" where
    rk: "\<And>c q l. prev c = Some (Some q, l) \<Longrightarrow> prev q \<noteq> None \<and> rank q < rank c"
    unfolding ranked_def by blast
  define rank' where "rank' = rank(cur := (case p of None \<Rightarrow> 0 | Some q \<Rightarrow> Suc (rank q)))"
  have "(prev(cur \<mapsto> (p, l))) q \<noteq> None \<and> rank' q < rank' c"
    if a: "(prev(cur \<mapsto> (p, l))) c = Some (Some q, l')" for c q l'
  proof (cases "c = cur")
    case True
    with a have pq: "p = Some q" by simp
    with p cur have "q \<noteq> cur" by auto
    with pq p True show ?thesis by (simp add: rank'_def)
  next
    case False
    with a have "prev c = Some (Some q, l')" by simp
    from rk[OF this] cur have "prev q \<noteq> None" "rank q < rank c" "q \<noteq> cur" by auto
    with False show ?thesis by (simp add: rank'_def)
  qed
  then show ?thesis unfolding ranked_def by blast
qed

lemma sp_walk_total:
  assumes r: "ranked prev"
  shows "prev c \<noteq> None \<Longrightarrow> \<exists>pth. sp_walk prev (Some c) acc = Some (Inr pth)"
proof -
  from r obtain rank :: "string \<Rightarrow> nat" where
    rk: "\<And>c q l. prev c = Some (Some q, l) \<Longrightarrow> prev q \<noteq> None \<and> rank q < rank c"
    unfolding ranked_def by blast
  show "prev c \<noteq> None \<Longrightarrow> \<exists>pth. sp_walk prev (Some c) acc = Some (Inr pth)"
  proof (induction "rank c" arbitrary: c acc rule: less_induct)
    case less
    from less.prems obtain p l where pc: "prev c = Some (p, l)" by auto
    show ?case
    proof (cases p)
      case None
      with pc show ?thesis
        by (subst sp_walk.simps, simp, subst sp_walk.simps, simp)
    next
      case (Some q)
      with pc rk[of c q l] have "prev q \<noteq> None" "rank q < rank c" by simp_all
      from less.hyps[OF this(2) this(1), of "acc @ [(c, l)]"] pc Some show ?thesis
        by (subst sp_walk.simps) simp
    qed
  qed
qed

lemma sp_inv_skip:
  assumes I: "sp_inv g src dst pq distm prev"
    and ok1: "sp_heap_ok pq1" and set: "set pq = insert (t, cur, p, l) (set pq1)"
    and fin: "prev cur \<noteq> None"
  shows "sp_inv g src dst pq1 distm prev"
proof -
  from set have sub: "set pq1 \<subseteq> set pq" by auto
  from I have opn: "open_in_pq distm prev pq" by (simp add: sp_inv_def)
  have "open_in_pq distm prev pq1"
    unfolding open_in_pq_def
  proof (intro allI impI)
    fix s d assume a: "distm s = Some d \<and> prev s = None"
    then have "distm s = Some d" "prev s = None" by simp_all
    from open_in_pqD[OF opn this] obtain q l' where "(d, s, q, l') \<in> set pq" by blast
    moreover from a fin have "s \<noteq> cur" by auto
    ultimately show "\<exists>p l. (d, s, p, l) \<in> set pq1" using set by auto
  qed
  with I ok1 sub show ?thesis
    unfolding sp_inv_def dist_le_pq_def preds_closed_def by blast
qed

lemma sp_inv_dist_cur:
  assumes I: "sp_inv g src dst pq distm prev"
    and mem: "(t, cur, p, l) \<in> set pq" and least: "\<forall>y \<in> set pq. t \<le> sp_time y"
    and cur: "prev cur = None"
  shows "distm cur = Some t"
proof -
  from I have dle: "dist_le_pq distm pq" and opn: "open_in_pq distm prev pq"
    by (simp_all add: sp_inv_def)
  from dle mem obtain d where d: "distm cur = Some d" "d \<le> t"
    unfolding dist_le_pq_def by force
  from open_in_pqD[OF opn d(1) cur] obtain q l' where "(d, cur, q, l') \<in> set pq" by blast
  with least have "t \<le> d" by force
  with d(2) have "d = t" by (rule order_antisym)
  with d show ?thesis by simp
qed

lemma sp_inv_to_mid:
  assumes I: "sp_inv g src dst pq distm prev"
    and ok1: "sp_heap_ok pq1" and set: "set pq = insert (t, cur, p, l) (set pq1)"
    and least: "\<forall>y \<in> set pq. t \<le> sp_time y"
    and cur: "prev cur = None"
  shows "sp_mid g src cur t (prev(cur \<mapsto> (p, l))) [] pq1 distm"
proof -
  let ?prev = "prev(cur \<mapsto> (p, l))"
  from set have sub: "set pq1 \<subseteq> set pq" and mem: "(t, cur, p, l) \<in> set pq" by auto
  from I have src: "distm src = Some (Fin 0)" and pos: "\<forall>x \<in> set pq. Fin 0 \<le> sp_time x"
    and ok: "sp_heap_ok pq"
    and dle: "dist_le_pq distm pq" and opn: "open_in_pq distm prev pq"
    and fin: "\<forall>u du. prev u \<noteq> None \<and> distm u = Some du \<longrightarrow> (\<forall>x \<in> set pq. du \<le> sp_time x)"
    and rel: "relaxed (\<lambda>u. set (routes_from g u)) distm prev"
    and cl: "closed_dist distm prev" and pc: "preds_closed prev pq"
    by (simp_all add: sp_inv_def)
  have dcur: "distm cur = Some t" using sp_inv_dist_cur[OF I mem least cur] .
  from pos mem have t0: "Fin 0 \<le> t" by force
  from sp_heap_ok_dbl[OF ok mem] have tdbl: "is_dbl t" by simp
  have ge: "\<forall>x \<in> set pq1. t \<le> sp_time x" using least sub by blast
  have dle1: "dist_le_pq distm pq1" using dle sub unfolding dist_le_pq_def by blast
  have opn1: "open_in_pq distm ?prev pq1"
    unfolding open_in_pq_def
  proof (intro allI impI)
    fix s d assume a: "distm s = Some d \<and> ?prev s = None"
    then have ne: "s \<noteq> cur" and ds: "distm s = Some d" "prev s = None"
      by (auto split: if_splits)
    from open_in_pqD[OF opn ds] obtain q l' where "(d, s, q, l') \<in> set pq" by blast
    with ne set show "\<exists>p l. (d, s, p, l) \<in> set pq1" by auto
  qed
  have fin1: "\<forall>u du. ?prev u \<noteq> None \<and> distm u = Some du \<longrightarrow> du \<le> t"
  proof (intro allI impI)
    fix u du assume a: "?prev u \<noteq> None \<and> distm u = Some du"
    show "du \<le> t"
    proof (cases "u = cur")
      case True with a dcur show ?thesis by simp
    next
      case False
      with a have "prev u \<noteq> None \<and> distm u = Some du" by simp
      with fin[rule_format, of u du "(t, cur, p, l)"] mem show ?thesis by simp
    qed
  qed
  have rel1: "relaxed (\<lambda>u. if u = cur then set [] else set (routes_from g u)) distm ?prev"
    using rel unfolding relaxed_def by (auto split: if_splits)
  have cl1: "closed_dist distm ?prev" using cl dcur by (simp add: closed_dist_def)
  have pc1: "preds_closed ?prev pq1" using pc sub unfolding preds_closed_def by auto
  from ok1 src t0 tdbl ge dle1 opn1 fin1 rel1 cl1 pc1 dcur show ?thesis
    unfolding sp_mid_def by simp
qed

lemma sp_mid_to_inv:
  assumes M: "sp_mid g src cur t prev1 (routes_from g cur) pq distm"
    and r: "ranked prev1" and dst: "prev1 dst = None"
  shows "sp_inv g src dst pq distm prev1"
proof -
  from M have ge: "\<forall>x \<in> set pq. t \<le> sp_time x" and t0: "Fin 0 \<le> t"
    and fin: "\<forall>u du. prev1 u \<noteq> None \<and> distm u = Some du \<longrightarrow> du \<le> t"
    and rel: "relaxed (\<lambda>u. if u = cur then set (routes_from g cur) else set (routes_from g u)) distm prev1"
    by (simp_all add: sp_mid_def)
  have "(\<lambda>u. if u = cur then set (routes_from g cur) else set (routes_from g u))
      = (\<lambda>u. set (routes_from g u))" by (intro ext) simp
  with rel have rel': "relaxed (\<lambda>u. set (routes_from g u)) distm prev1" by simp
  have pos: "\<forall>x \<in> set pq. Fin 0 \<le> sp_time x" using ge t0 by (meson order_trans)
  have fin': "\<forall>u du. prev1 u \<noteq> None \<and> distm u = Some du \<longrightarrow> (\<forall>x \<in> set pq. du \<le> sp_time x)"
    using fin ge by (meson order_trans)
  from M pos fin' rel' r dst show ?thesis
    unfolding sp_inv_def sp_mid_def by simp
qed

lemma sp_measure_step:
  assumes fin: "finite (dom (adj g))" and cur: "prev cur = None"
  shows "(\<Sum>s \<in> {s \<in> dom (adj g). (prev(cur \<mapsto> v)) s = None}. length (routes_from g s))
           + length (routes_from g cur)
         = (\<Sum>s \<in> {s \<in> dom (adj g). prev s = None}. length (routes_from g s))"
proof -
  let ?S = "{s \<in> dom (adj g). prev s = None}"
  have S': "{s \<in> dom (adj g). (prev(cur \<mapsto> v)) s = None} = ?S - {cur}" by auto
  have fS: "finite ?S" using fin by simp
  show ?thesis
  proof (cases "cur \<in> dom (adj g)")
    case True
    with cur have "cur \<in> ?S" by simp
    from sum.remove[OF fS this, of "\<lambda>s. length (routes_from g s)"] S' show ?thesis by simp
  next
    case False
    then have "adj g cur = None" by auto
    then have "routes_from g cur = []" by (simp add: routes_from_def)
    moreover from False have "?S - {cur} = ?S" by auto
    ultimately show ?thesis using S' by simp
  qed
qed

lemma sp_loop_correct:
  assumes fin: "finite (dom (adj g))" and nn: "nonneg_durations g"
  shows "sp_inv g src dst pq distm prev \<Longrightarrow>
         \<exists>pq' distm' prev'. sp_loop g dst (pq, distm, prev) = Some (Inr (pq', distm', prev')) \<and>
            sp_post g src dst distm' prev'"
proof (induction "sp_measure g pq prev" arbitrary: pq distm prev rule: less_induct)
  case less
  note I = less.prems
  from I have pdst: "prev dst = None" and src: "distm src = Some (Fin 0)"
    and rel: "relaxed (\<lambda>u. set (routes_from g u)) distm prev"
    and opn: "open_in_pq distm prev pq" and ok: "sp_heap_ok pq" and rk: "ranked prev"
    and pc: "preds_closed prev pq"
    by (simp_all add: sp_inv_def)
  show ?case
  proof (cases "pq = []")
    case True
    have "\<not> is_path g src p dst" for p
      using no_path_when_empty[OF rel, of src p dst] opn True src pdst by auto
    with pdst have "sp_post g src dst distm prev" by (simp add: sp_post_def)
    with True show ?thesis by (subst sp_loop.simps) simp
  next
    case False
    from sp_pop[OF ok False] obtain x pq1 where pop: "heappop sp_lt pq = Inr (x, pq1)"
      and ok1: "sp_heap_ok pq1" and set0: "set pq = insert x (set pq1)"
      and len: "Suc (length pq1) = length pq" and least0: "\<forall>y \<in> set pq. sp_time x \<le> sp_time y"
      by blast
    obtain t cur p l where x: "x = (t, cur, p, l)" by (cases x) auto
    from set0 x have set: "set pq = insert (t, cur, p, l) (set pq1)" by simp
    from least0 x have least: "\<forall>y \<in> set pq. t \<le> sp_time y" by simp
    show ?thesis
    proof (cases "prev cur = None")
      case fin_cur: False
      have I1: "sp_inv g src dst pq1 distm prev" using sp_inv_skip[OF I ok1 set fin_cur] .
      have "sp_measure g pq1 prev < sp_measure g pq prev"
        using len by (simp add: sp_measure_def)
      from less.hyps[OF this I1] obtain pq' distm' prev' where
        "sp_loop g dst (pq1, distm, prev) = Some (Inr (pq', distm', prev'))"
        "sp_post g src dst distm' prev'" by blast
      with False pop x fin_cur show ?thesis by (subst sp_loop.simps) simp
    next
      case True
      let ?prev = "prev(cur \<mapsto> (p, l))"
      have M0: "sp_mid g src cur t ?prev [] pq1 distm"
        using sp_inv_to_mid[OF I ok1 set least True] .
      from set have mem: "(t, cur, p, l) \<in> set pq" by simp
      have dcur: "distm cur = Some t" using sp_inv_dist_cur[OF I mem least True] .
      have rk1: "ranked ?prev"
      proof (rule ranked_extend[OF rk True])
        fix q assume "p = Some q"
        with pc mem show "prev q \<noteq> None" unfolding preds_closed_def by force
      qed
      show ?thesis
      proof (cases "cur = dst")
        case at_dst: True
        have "t \<le> float_path_time pth" if "is_path g src pth dst" for pth
          using path_bound[OF nn rel opn ok least True src, of pth] that at_dst
          by (simp add: float_path_time_def)
        with dcur at_dst rk1 have "sp_post g src dst distm ?prev"
          by (simp add: sp_post_def)
        with False pop x True at_dst show ?thesis by (subst sp_loop.simps) simp
      next
        case not_dst: False
        have nne: "\<forall>e \<in> set (routes_from g cur). 0 \<le> time e"
          using routes_nonneg[OF nn] by blast
        from sp_relax_correct[OF M0 nne] obtain distm1 pq2 where
          rx: "sp_relax cur t (routes_from g cur) distm pq1 = Inr (distm1, pq2)"
          and len2: "length pq2 \<le> length pq1 + length (routes_from g cur)"
          and M1: "sp_mid g src cur t ?prev ([] @ routes_from g cur) pq2 distm1" by blast
        from not_dst pdst have "?prev dst = None" by simp
        with sp_mid_to_inv[OF _ rk1, of g src cur t pq2 distm1 dst] M1
        have I2: "sp_inv g src dst pq2 distm1 ?prev" by simp
        have "sp_measure g pq2 ?prev < sp_measure g pq prev"
          using sp_measure_step[where prev = prev and cur = cur and v = "(p, l)", OF fin True] len len2
          by (simp add: sp_measure_def)
        from less.hyps[OF this I2] obtain pq' distm' prev' where
          "sp_loop g dst (pq2, distm1, ?prev) = Some (Inr (pq', distm', prev'))"
          "sp_post g src dst distm' prev'" by blast
        with False pop x True not_dst rx show ?thesis by (subst sp_loop.simps) simp
      qed
    qed
  qed
qed

lemma sp_inv_init: "sp_inv g src dst [(Fin 0, src, None, None)] [src \<mapsto> Fin 0] Map.empty"
  unfolding sp_inv_def sp_heap_ok_def heap_inv_def dist_le_pq_def open_in_pq_def relaxed_def
    closed_dist_def preds_closed_def ranked_def
  by (simp add: is_dbl_0 split: if_splits)

lemma dom_adj_dec_graph: "dom (adj dec_graph) = {''A'', ''B'', ''C'', ''D''}"
  by (auto simp: dec_graph_def add_connection_def ensure_station_def add_station_def
      append_edge_def init_graph_def split: if_splits)

lemma nonneg_dec_graph: "nonneg_durations dec_graph"
  unfolding nonneg_durations_def
  by (auto simp: dec_graph_def add_connection_def ensure_station_def add_station_def
      append_edge_def init_graph_def d01_def d02_def d03_def split: if_splits)

lemma is_path_dec_graph: "is_path dec_graph ''A'' dec_path ''D''"
  by (simp add: dec_path_def dec_graph_def routes_from_def add_connection_def ensure_station_def
      add_station_def append_edge_def init_graph_def)

lemma dec_durations_are_doubles: "rnd d01 = Fin d01 \<and> rnd d02 = Fin d02 \<and> rnd d03 = Fin d03"
  by code_simp

lemma shortest_path_dec_graph:
  "shortest_path dec_graph ''A'' ''D''
     = Some (Inr (Fin (1351079888211149 / 2251799813685248),
          [(''A'', None), (''B'', None), (''C'', None), (''D'', None)]))"
  by code_simp

lemma sums_dec_path:
  "path_time dec_path < 1351079888211149 / 2251799813685248"
  "float_path_time dec_path = Fin (1351079888211149 / 2251799813685248)"
  "float_path_time (rev dec_path) < Fin (1351079888211149 / 2251799813685248)"
  by code_simp+

text \<open>
  Claim C8, as stated, fails. On the chain A to B to C to D with the durations 0.1, 0.2
  and 0.3 (doubles, non-negative) \<^verbatim>\<open>shortest_path(A, D)\<close> returns 0.6000000000000001,
  the sum as the search accumulates it in doubles. This is above the sum of the three
  durations of the only path, and also above the sum in doubles taken from the last
  edge to the first.
\<close>

theorem optimality_rounding_counterexample:
  "rnd d01 = Fin d01 \<and> rnd d02 = Fin d02 \<and> rnd d03 = Fin d03 \<and>
   nonneg_durations dec_graph \<and> is_path dec_graph ''A'' dec_path ''D'' \<and>
   shortest_path dec_graph ''A'' ''D''
     = Some (Inr (Fin (1351079888211149 / 2251799813685248),
          [(''A'', None), (''B'', None), (''C'', None), (''D'', None)])) \<and>
   path_time dec_path < 1351079888211149 / 2251799813685248 \<and>
   float_path_time (rev dec_path) < Fin (1351079888211149 / 2251799813685248)"
  using dec_durations_are_doubles nonneg_dec_graph is_path_dec_graph shortest_path_dec_graph
    sums_dec_path by simp

text \<open>
  Claim C8, amended. For every finite graph with non-negative edge durations, all
  stations \<open>a\<close> and \<open>b\<close> that exist in it and every directed path from \<open>a\<close> to \<open>b\<close>,
  \<^verbatim>\<open>shortest_path(a, b)\<close> returns a time that is at most the durations of the path added
  in doubles, from 0.0 and from the first edge to the last, the way the search itself
  accumulates them.
\<close>

theorem shortest_path_float_optimal:
  assumes "finite (dom (adj g))" and "nonneg_durations g"
    and "adj g a \<noteq> None" and "adj g b \<noteq> None" and "is_path g a p b"
  shows "\<exists>t pth. shortest_path g a b = Some (Inr (t, pth)) \<and> t \<le> float_path_time p"
proof -
  from sp_loop_correct[OF assms(1,2) sp_inv_init[of g a b]] obtain pq' distm' prev' where
    loop: "sp_loop g b ([(Fin 0, a, None, None)], [a \<mapsto> Fin 0], Map.empty)
      = Some (Inr (pq', distm', prev'))"
    and post: "sp_post g a b distm' prev'" by blast
  from post assms(5) have fb: "prev' b \<noteq> None" unfolding sp_post_def by blast
  with post obtain d where rk: "ranked prev'" and d: "distm' b = Some d"
    and opt: "\<forall>p. is_path g a p b \<longrightarrow> d \<le> float_path_time p"
    unfolding sp_post_def by blast
  from sp_walk_total[OF rk fb, of "[]"] obtain pth where
    walk: "sp_walk prev' (Some b) [] = Some (Inr pth)" by blast
  from fb obtain v where pv: "prev' b = Some v" by auto
  from assms(3,4) loop pv walk d have "shortest_path g a b = Some (Inr (d, rev pth))"
    by (simp add: shortest_path_def heappush_empty)
  with opt assms(5) show ?thesis by blast
qed

theorem shortest_path_float_optimal_witness:
  "finite (dom (adj dec_graph)) \<and> nonneg_durations dec_graph \<and>
   adj dec_graph ''A'' \<noteq> None \<and> adj dec_graph ''D'' \<noteq> None \<and>
   is_path dec_graph ''A'' dec_path ''D'' \<and>
   (\<exists>t pth. shortest_path dec_graph ''A'' ''D'' = Some (Inr (t, pth)) \<and>
      t \<le> Fin (1351079888211149 / 2251799813685248))"
proof -
  have h1: "finite (dom (adj dec_graph))" by (simp add: dom_adj_dec_graph)
  have h3: "adj dec_graph ''A'' \<noteq> None" and h4: "adj dec_graph ''D'' \<noteq> None"
    using dom_adj_dec_graph by auto
  show ?thesis
    using h1 nonneg_dec_graph h3 h4 is_path_dec_graph
      shortest_path_float_optimal [OF h1 nonneg_dec_graph h3 h4 is_path_dec_graph]
    by (simp add: sums_dec_path(2))
qed

end
